theory Spec2Isabelle
  imports Main "HOL-Library.AList" "HOL-Library.Word"
begin

section \<open>The table view of \<open>pulsar/table_view_impl.go\<close>\<close>

text \<open>
  The theory embeds \<open>TableViewImpl\<close> and its methods. A method takes the program state
  and returns an \<open>outcome\<close>: the state (and the return value) when the call returns, or
  the way in which it does not return.

  \<^item> A Go \<open>map[string]T\<close> is an association list with distinct keys. The order of the
    list stands for the order in which the Go runtime ranges over the map, which the
    language leaves open; every statement below is made for all lists.
  \<^item> \<open>interface{}\<close> is \<open>'v option\<close>: \<open>None\<close> is the nil interface, \<open>Some v\<close> a value
    of the configured value type.
  \<^item> A \<open>sync.Mutex\<close> is a flag. \<open>Lock\<close> on a set flag does not return: within one
    call the only goroutine that could clear the flag is the caller itself.
  \<^item> Calls on the external collaborators (reader, context) are recorded in a trace.
  \<^item> A listener is a Go closure: it reads and writes the memory of the caller, the
    \<open>world\<close>, and returns an error or nil.
\<close>

subsection \<open>Data\<close>

type_synonym error = string

type_synonym byte = "8 word"

type_synonym 'v iface = "'v option"

text \<open>
  Modelled from the spec: the \<open>Message\<close> interface and its implementation are not in
  \<open>table_view_impl.go\<close>. A message is given by what its three methods answer.
  \<open>GetSchemaValue\<close> is the spec's \<open>decode(rawPayload, targetType) \<rightarrow> Value | DecodeError\<close>:
  it either writes the decoded value through the pointer it is given and returns nil
  (\<open>Inr v\<close>), or returns the error and leaves the target as it was (\<open>Inl e\<close>).
\<close>

record 'v Message =
  Key :: string
  Payload :: "byte list"
  GetSchemaValue :: "error + 'v"

text \<open>
  Of \<open>TableViewOptions\<close> the code reads \<open>Topic\<close>, whether \<open>Schema\<close> is set, and
  \<open>SchemaValueType\<close>. A \<open>reflect.Type\<close> is used only to allocate a zero value
  (\<open>reflect.New\<close>), so it is represented by that zero value; \<open>None\<close> is the nil type.
  The logger and the refresh interval are not modelled: log lines go to the \<open>logger\<close>
  field below, and time is not part of the model.
\<close>

record 'v TableViewOptions =
  Topic :: string
  Schema :: bool
  SchemaValueType :: "'v option"

record cancelReader =
  reader :: nat
  cancelFunc :: nat

type_synonym ('v, 'w) listener = "string \<Rightarrow> 'v iface \<Rightarrow> 'w \<Rightarrow> error option \<times> 'w"

datatype log_entry =
    ReadNextFailed string error
  | GetSchemaValueFailed error string
  | ListenerFailed string error
  | PartitionCheckFailed error

datatype event =
    NewReader string nat
  | ReaderClose nat
  | CancelFunc nat
  | GoWatch nat nat
  | GoPeriodicCheck

text \<open>
  The struct. \<open>data\<close> is a reference to a map object in the heap; \<open>logger\<close> is the list
  of lines written to the logger; \<open>closedCh\<close> tells whether the channel is closed.
\<close>

record ('v, 'w) TableViewImpl =
  options :: "'v TableViewOptions"
  dataMu :: bool
  data :: nat
  readersMu :: bool
  cancelReaders :: "(string \<times> cancelReader) list"
  listenersMu :: bool
  listeners :: "('v, 'w) listener list"
  logger :: "log_entry list"
  closed :: bool
  closedCh :: bool

text \<open>
  The memory around the struct: the heap of map objects, the counter of fresh object
  identities, the trace of calls on the collaborators, and the memory of the caller.
\<close>

record ('v, 'w) state = "('v, 'w) TableViewImpl" +
  heap :: "nat \<Rightarrow> (string \<times> 'v iface) list"
  nextId :: nat
  trace :: "event list"
  world :: 'w

datatype 'a outcome = Returned 'a | Blocked | Panicked string

definition obind :: "'a outcome \<Rightarrow> ('a \<Rightarrow> 'b outcome) \<Rightarrow> 'b outcome" where
  "obind m f = (case m of Returned x \<Rightarrow> f x | Blocked \<Rightarrow> Blocked | Panicked s \<Rightarrow> Panicked s)"

subsection \<open>Mutexes and the map behind \<open>data\<close>\<close>

definition Lock_dataMu :: "('v, 'w) state \<Rightarrow> ('v, 'w) state outcome" where
  "Lock_dataMu tv = (if dataMu tv then Blocked else Returned (tv\<lparr>dataMu := True\<rparr>))"

definition Unlock_dataMu :: "('v, 'w) state \<Rightarrow> ('v, 'w) state" where
  "Unlock_dataMu tv = tv\<lparr>dataMu := False\<rparr>"

definition Lock_readersMu :: "('v, 'w) state \<Rightarrow> ('v, 'w) state outcome" where
  "Lock_readersMu tv = (if readersMu tv then Blocked else Returned (tv\<lparr>readersMu := True\<rparr>))"

definition Unlock_readersMu :: "('v, 'w) state \<Rightarrow> ('v, 'w) state" where
  "Unlock_readersMu tv = tv\<lparr>readersMu := False\<rparr>"

definition Lock_listenersMu :: "('v, 'w) state \<Rightarrow> ('v, 'w) state outcome" where
  "Lock_listenersMu tv =
     (if listenersMu tv then Blocked else Returned (tv\<lparr>listenersMu := True\<rparr>))"

definition Unlock_listenersMu :: "('v, 'w) state \<Rightarrow> ('v, 'w) state" where
  "Unlock_listenersMu tv = tv\<lparr>listenersMu := False\<rparr>"

definition the_data :: "('v, 'w) state \<Rightarrow> (string \<times> 'v iface) list" where
  "the_data tv = heap tv (data tv)"

definition set_data :: "(string \<times> 'v iface) list \<Rightarrow> ('v, 'w) state \<Rightarrow> ('v, 'w) state" where
  "set_data d tv = tv\<lparr>heap := (heap tv)(data tv := d)\<rparr>"

text \<open>\<open>m[k]\<close> on a \<open>map[string]interface{}\<close>: the nil interface for a missing key.\<close>

definition index_map :: "(string \<times> 'v iface) list \<Rightarrow> string \<Rightarrow> 'v iface" where
  "index_map m k = (case map_of m k of None \<Rightarrow> None | Some v \<Rightarrow> v)"

subsection \<open>Reading\<close>

definition Size :: "('v, 'w) state \<Rightarrow> (int \<times> ('v, 'w) state) outcome" where
  "Size tv =
     obind (Lock_dataMu tv) (\<lambda>tv1.
       Returned (int (length (the_data tv1)), Unlock_dataMu tv1))"

definition IsEmpty :: "('v, 'w) state \<Rightarrow> (bool \<times> ('v, 'w) state) outcome" where
  "IsEmpty tv =
     obind (Lock_dataMu tv) (\<lambda>tv1.
       obind (Size tv1) (\<lambda>(n, tv2).
         Returned (n = 0, Unlock_dataMu tv2)))"

definition ContainsKey :: "string \<Rightarrow> ('v, 'w) state \<Rightarrow> (bool \<times> ('v, 'w) state) outcome" where
  "ContainsKey k tv =
     obind (Lock_dataMu tv) (\<lambda>tv1.
       Returned (map_of (the_data tv1) k \<noteq> None, Unlock_dataMu tv1))"

definition Get :: "string \<Rightarrow> ('v, 'w) state \<Rightarrow> ('v iface \<times> ('v, 'w) state) outcome" where
  "Get k tv =
     obind (Lock_dataMu tv) (\<lambda>tv1.
       Returned (index_map (the_data tv1) k, Unlock_dataMu tv1))"

text \<open>
  \<open>Entries\<close> makes a new map, copies every entry into it, and returns \<open>tv.data\<close>: the
  result is the reference held by the struct, and the copy stays behind in the heap.
\<close>

definition Entries :: "('v, 'w) state \<Rightarrow> (nat \<times> ('v, 'w) state) outcome" where
  "Entries tv =
     obind (Lock_dataMu tv) (\<lambda>tv1.
       let copy = nextId tv1;
           tv2 = tv1\<lparr>nextId := copy + 1, heap := (heap tv1)(copy := [])\<rparr>;
           tv3 = tv2\<lparr>heap := (heap tv2)(copy := fold (\<lambda>(k, v) m. AList.update k v m)
                                                    (the_data tv2) (heap tv2 copy))\<rparr>
       in Returned (data tv3, Unlock_dataMu tv3))"

definition Keys :: "('v, 'w) state \<Rightarrow> (string list \<times> ('v, 'w) state) outcome" where
  "Keys tv =
     obind (Lock_dataMu tv) (\<lambda>tv1.
       Returned (map fst (the_data tv1), Unlock_dataMu tv1))"

fun forEach_loop ::
  "('v, 'w) listener \<Rightarrow> (string \<times> 'v iface) list \<Rightarrow> 'w \<Rightarrow> error option \<times> 'w" where
  "forEach_loop action [] w = (None, w)"
| "forEach_loop action ((k, v) # rest) w =
     (case action k v w of
        (Some err, w') \<Rightarrow> (Some err, w')
      | (None, w') \<Rightarrow> forEach_loop action rest w')"

definition ForEach ::
  "('v, 'w) listener \<Rightarrow> ('v, 'w) state \<Rightarrow> (error option \<times> ('v, 'w) state) outcome" where
  "ForEach action tv =
     obind (Lock_dataMu tv) (\<lambda>tv1.
       case forEach_loop action (the_data tv1) (world tv1) of
         (err, w') \<Rightarrow> Returned (err, Unlock_dataMu (tv1\<lparr>world := w'\<rparr>)))"

subsection \<open>Applying a record\<close>

fun notify ::
  "('v, 'w) listener list \<Rightarrow> string \<Rightarrow> 'v iface \<Rightarrow> ('v, 'w) state \<Rightarrow> ('v, 'w) state" where
  "notify [] k v tv = tv"
| "notify (listener # rest) k v tv =
     (case listener k v (world tv) of
        (Some err, w') \<Rightarrow>
          notify rest k v (tv\<lparr>world := w', logger := logger tv @ [ListenerFailed k err]\<rparr>)
      | (None, w') \<Rightarrow> notify rest k v (tv\<lparr>world := w'\<rparr>))"

definition handleMessage :: "'v Message \<Rightarrow> ('v, 'w) state \<Rightarrow> ('v, 'w) state outcome" where
  "handleMessage msg tv =
     obind (Lock_dataMu tv) (\<lambda>tv1.
       case SchemaValueType (options tv1) of
         None \<Rightarrow> Panicked ''reflect: New(nil)''
       | Some zero \<Rightarrow>
           let (payload, tv2) =
                 (if length (Payload msg) = 0
                  then (zero, set_data (AList.delete (Key msg) (the_data tv1)) tv1)
                  else
                    let (payload, tv') =
                          (case GetSchemaValue msg of
                             Inl err \<Rightarrow>
                               (zero, tv1\<lparr>logger := logger tv1 @
                                               [GetSchemaValueFailed err (Key msg)]\<rparr>)
                           | Inr v \<Rightarrow> (v, tv1))
                    in (payload,
                        set_data (AList.update (Key msg) (Some payload) (the_data tv')) tv'))
           in Returned (Unlock_dataMu (notify (listeners tv2) (Key msg) (Some payload) tv2)))"

subsection \<open>Snapshot and subscribe\<close>

text \<open>
  \<open>ForEachAndListen\<close> in its two parts: up to the return of \<open>ForEach\<close>, which has
  released \<open>dataMu\<close>, and from there to the end. \<open>listenersMu\<close> is held in between.
\<close>

definition ForEachAndListen_snapshot ::
  "('v, 'w) listener \<Rightarrow> ('v, 'w) state \<Rightarrow> (error option \<times> ('v, 'w) state) outcome" where
  "ForEachAndListen_snapshot action tv =
     obind (Lock_listenersMu tv) (\<lambda>tv1. ForEach action tv1)"

definition ForEachAndListen_register ::
  "('v, 'w) listener \<Rightarrow> error option \<times> ('v, 'w) state \<Rightarrow>
     (error option \<times> ('v, 'w) state) outcome" where
  "ForEachAndListen_register action r =
     (case r of
        (Some err, tv2) \<Rightarrow> Returned (Some err, Unlock_listenersMu tv2)
      | (None, tv2) \<Rightarrow>
          Returned (None, Unlock_listenersMu (tv2\<lparr>listeners := listeners tv2 @ [action]\<rparr>)))"

definition ForEachAndListen ::
  "('v, 'w) listener \<Rightarrow> ('v, 'w) state \<Rightarrow> (error option \<times> ('v, 'w) state) outcome" where
  "ForEachAndListen action tv =
     obind (ForEachAndListen_snapshot action tv) (ForEachAndListen_register action)"

subsection \<open>Reconciling the readers with the partitions\<close>

text \<open>
  Modelled from the spec: the client and the reader are not in \<open>table_view_impl.go\<close>
  (\<open>enumeratePartitions\<close>, \<open>openReader\<close>, \<open>fetchNext\<close>, \<open>hasBacklog\<close> in the spec). A
  \<open>client\<close> is what the broker answers during one call: the partitions of the topic,
  and for each partition whether a reader can be opened. An opened reader is given by
  its backlog, the results \<open>(msg, err)\<close> of the successive calls of \<open>Next\<close> for which
  \<open>HasNext\<close> is true; the backlog is finite.
\<close>

type_synonym 'v fetched = "'v Message option \<times> error option"

record 'v client =
  TopicPartitions :: "error + string list"
  newReader :: "string \<Rightarrow> error + 'v fetched list"

fun removeStale ::
  "string list \<Rightarrow> (string \<times> cancelReader) list \<Rightarrow> ('v, 'w) state \<Rightarrow> ('v, 'w) state" where
  "removeStale partitions [] tv = tv"
| "removeStale partitions ((p, cr) # rest) tv =
     (if p \<in> set partitions then removeStale partitions rest tv
      else removeStale partitions rest
             (tv\<lparr>trace := trace tv @ [CancelFunc (cancelFunc cr), ReaderClose (reader cr)],
                 cancelReaders := AList.delete p (cancelReaders tv)\<rparr>))"

fun drain :: "string \<Rightarrow> 'v fetched list \<Rightarrow> ('v, 'w) state \<Rightarrow> ('v, 'w) state outcome" where
  "drain p [] tv = Returned tv"
| "drain p ((msg, err) # rest) tv =
     (let tv1 = (case err of
                   None \<Rightarrow> tv
                 | Some e \<Rightarrow> tv\<lparr>logger := logger tv @ [ReadNextFailed p e]\<rparr>)
      in case msg of
           None \<Rightarrow> drain p rest tv1
         | Some m \<Rightarrow>
             (case handleMessage m tv1 of
                Returned tv2 \<Rightarrow> drain p rest tv2
              | Blocked \<Rightarrow> Blocked
              | Panicked s \<Rightarrow> Panicked s))"

fun addNew ::
  "'v client \<Rightarrow> string list \<Rightarrow> ('v, 'w) state \<Rightarrow> (error option \<times> ('v, 'w) state) outcome" where
  "addNew c [] tv = Returned (None, tv)"
| "addNew c (p # rest) tv =
     (if map_of (cancelReaders tv) p \<noteq> None then addNew c rest tv
      else
        case newReader c p of
          Inl err \<Rightarrow>
            Returned (Some (''create new reader failed for '' @ p @ '': '' @ err), tv)
        | Inr backlog \<Rightarrow>
            let r = nextId tv;
                tv1 = tv\<lparr>nextId := r + 1, trace := trace tv @ [NewReader p r]\<rparr>
            in (case drain p backlog tv1 of
                 Returned tv2 \<Rightarrow>
                   let ctx = nextId tv2;
                       entry = \<lparr>reader = r, cancelFunc = ctx\<rparr>;
                       tv3 = tv2\<lparr>nextId := ctx + 1,
                                 cancelReaders := AList.update p entry (cancelReaders tv2),
                                 trace := trace tv2 @ [GoWatch ctx r]\<rparr>
                   in addNew c rest tv3
               | Blocked \<Rightarrow> Blocked
               | Panicked s \<Rightarrow> Panicked s))"

definition partitionUpdateCheck ::
  "'v client \<Rightarrow> ('v, 'w) state \<Rightarrow> (error option \<times> ('v, 'w) state) outcome" where
  "partitionUpdateCheck c tv =
     (case TopicPartitions c of
        Inl err \<Rightarrow>
          Returned (Some (''tv.client.TopicPartitions('' @ Topic (options tv) @ '') failed: ''
                            @ err), tv)
      | Inr partitionsArray \<Rightarrow>
          let partitions = remdups partitionsArray
          in obind (Lock_readersMu tv) (\<lambda>tv1.
               let tv2 = removeStale partitions (cancelReaders tv1) tv1
               in obind (addNew c partitions tv2) (\<lambda>(err, tv3).
                    Returned (err, Unlock_readersMu tv3))))"

subsection \<open>Closing\<close>

fun closeReaders :: "(string \<times> cancelReader) list \<Rightarrow> ('v, 'w) state \<Rightarrow> ('v, 'w) state" where
  "closeReaders [] tv = tv"
| "closeReaders ((p, cr) # rest) tv =
     closeReaders rest (tv\<lparr>trace := trace tv @ [ReaderClose (reader cr)]\<rparr>)"

definition Close :: "('v, 'w) state \<Rightarrow> ('v, 'w) state outcome" where
  "Close tv =
     obind (Lock_readersMu tv) (\<lambda>tv1.
       Returned (Unlock_readersMu
         (if \<not> closed tv1
          then (closeReaders (cancelReaders tv1) (tv1\<lparr>closed := True\<rparr>))\<lparr>closedCh := True\<rparr>
          else tv1)))"

text \<open>
  One round of the loop of \<open>periodicPartitionUpdateCheck\<close>: the check, then the
  \<open>select\<close>. The result tells whether the loop goes on (the timer fired) or the
  function returned (the channel is closed).
\<close>

definition periodicPartitionUpdateCheck_round ::
  "'v client \<Rightarrow> ('v, 'w) state \<Rightarrow> (bool \<times> ('v, 'w) state) outcome" where
  "periodicPartitionUpdateCheck_round c tv =
     obind (partitionUpdateCheck c tv) (\<lambda>(err, tv1).
       let tv2 = (case err of
                    None \<Rightarrow> tv1
                  | Some e \<Rightarrow> tv1\<lparr>logger := logger tv1 @ [PartitionCheckFailed e]\<rparr>)
       in Returned (\<not> closedCh tv2, tv2))"

subsection \<open>Construction\<close>

text \<open>The struct literal of \<open>newTableView\<close>; the map behind \<open>data\<close> is object 0.\<close>

definition TableViewImpl_literal :: "'v TableViewOptions \<Rightarrow> 'w \<Rightarrow> ('v, 'w) state" where
  "TableViewImpl_literal opts w =
     \<lparr>options = opts, dataMu = False, data = 0, readersMu = False, cancelReaders = [],
      listenersMu = False, listeners = [], logger = [], closed = False, closedCh = False,
      heap = (\<lambda>_. []), nextId = 1, trace = [], world = w\<rparr>"

definition newTableView ::
  "'v client \<Rightarrow> 'v TableViewOptions \<Rightarrow> 'w \<Rightarrow> (error + ('v, 'w) state) outcome" where
  "newTableView c opts w =
     (if Topic opts = [] then Returned (Inl ''topic is required'')
      else if Schema opts \<and> SchemaValueType opts = None
      then Returned (Inl ''SchemaValueType is required when Schema is present'')
      else
        obind (partitionUpdateCheck c (TableViewImpl_literal opts w)) (\<lambda>(err, tv).
          case err of
            Some e \<Rightarrow> Returned (Inl e)
          | None \<Rightarrow> Returned (Inr (tv\<lparr>trace := trace tv @ [GoPeriodicCheck]\<rparr>))))"

subsection \<open>Records applied one after the other\<close>

text \<open>
  Both loops over \<open>reader.Next\<close> (the drain of the backlog and the tailing task) hand
  the records of a partition to \<open>handleMessage\<close> in the order they arrive.
\<close>

fun handleMessages :: "'v Message list \<Rightarrow> ('v, 'w) state \<Rightarrow> ('v, 'w) state outcome" where
  "handleMessages [] tv = Returned tv"
| "handleMessages (msg # rest) tv =
     (case handleMessage msg tv of
        Returned tv1 \<Rightarrow> handleMessages rest tv1
      | Blocked \<Rightarrow> Blocked
      | Panicked s \<Rightarrow> Panicked s)"

subsection \<open>Notions used in the statements\<close>

text \<open>
  The value that \<open>reflect.Indirect(payload).Interface()\<close> holds at the end of
  \<open>handleMessage\<close>, and the map that \<open>handleMessage\<close> leaves behind.
\<close>

definition payload_value :: "'v \<Rightarrow> 'v Message \<Rightarrow> 'v" where
  "payload_value zero msg =
     (if Payload msg = [] then zero
      else case GetSchemaValue msg of Inl err \<Rightarrow> zero | Inr v \<Rightarrow> v)"

definition apply_record ::
  "'v \<Rightarrow> 'v Message \<Rightarrow> (string \<times> 'v iface) list \<Rightarrow> (string \<times> 'v iface) list" where
  "apply_record zero msg m =
     (if Payload msg = [] then AList.delete (Key msg) m
      else AList.update (Key msg) (Some (payload_value zero msg)) m)"

text \<open>
  The keys of the records in a backlog, and the keys of the records that a call of
  \<open>partitionUpdateCheck\<close> can drain: those in the backlogs of the partitions that
  have no reader yet. \<open>opens c p\<close> says that \<open>newReader\<close> succeeds for \<open>p\<close>.
\<close>

definition backlog_keys :: "'v fetched list \<Rightarrow> string set" where
  "backlog_keys backlog =
     set (concat (map (\<lambda>(msg, err). case msg of None \<Rightarrow> [] | Some m \<Rightarrow> [Key m]) backlog))"


definition opens :: "'v client \<Rightarrow> string \<Rightarrow> bool" where
  "opens c p = (case newReader c p of Inl err \<Rightarrow> False | Inr backlog \<Rightarrow> True)"

text \<open>
  The records of a backlog in the order of their arrival, the lines that the fetch
  errors of a backlog leave in the log, and the backlog of the reader that
  \<open>newReader\<close> opens for a partition.
\<close>

definition backlog_msgs :: "'v fetched list \<Rightarrow> 'v Message list" where
  "backlog_msgs backlog =
     concat (map (\<lambda>(msg, err). case msg of None \<Rightarrow> [] | Some m \<Rightarrow> [m]) backlog)"

definition backlog_errors :: "string \<Rightarrow> 'v fetched list \<Rightarrow> log_entry list" where
  "backlog_errors p backlog =
     concat (map (\<lambda>(msg, err). case err of None \<Rightarrow> [] | Some e \<Rightarrow> [ReadNextFailed p e])
               backlog)"

definition backlog_of :: "'v client \<Rightarrow> string \<Rightarrow> 'v fetched list" where
  "backlog_of c p = (case newReader c p of Inl err \<Rightarrow> [] | Inr backlog \<Rightarrow> backlog)"

text \<open>
  The partitions for which a reconcile over the partitions \<open>ps\<close> opens a reader, in
  the order in which it opens them, when \<open>registered\<close> are the partitions that have a
  reader: it passes over the registered ones, opens the others, and stops at the
  first one whose reader cannot be opened. \<open>first_refused\<close> is that partition, with
  the error of \<open>newReader\<close>.
\<close>

fun newly_opened :: "'v client \<Rightarrow> string list \<Rightarrow> string set \<Rightarrow> string list" where
  "newly_opened c [] registered = []"
| "newly_opened c (p # rest) registered =
     (if p \<in> registered then newly_opened c rest registered
      else case newReader c p of
             Inl err \<Rightarrow> []
           | Inr backlog \<Rightarrow> p # newly_opened c rest (insert p registered))"

fun first_refused :: "'v client \<Rightarrow> string list \<Rightarrow> string set \<Rightarrow> (string \<times> error) option" where
  "first_refused c [] registered = None"
| "first_refused c (p # rest) registered =
     (if p \<in> registered then first_refused c rest registered
      else case newReader c p of
             Inl err \<Rightarrow> Some (p, err)
           | Inr backlog \<Rightarrow> first_refused c rest (insert p registered))"

text \<open>The partitions of the \<open>NewReader\<close> events of a trace, in order.\<close>

fun opened_partitions :: "event list \<Rightarrow> string list" where
  "opened_partitions [] = []"
| "opened_partitions (NewReader p r # evs) = p # opened_partitions evs"
| "opened_partitions (ev # evs) = opened_partitions evs"

text \<open>
  The state \<open>tv3\<close> in which \<open>partitionUpdateCheck\<close> goes on after it has opened,
  drained and registered the reader of partition \<open>p\<close> in state \<open>tv\<close>.
\<close>

definition opened ::
  "string \<Rightarrow> 'v fetched list \<Rightarrow> ('v, 'w) state \<Rightarrow> ('v, 'w) state \<Rightarrow> bool" where
  "opened p backlog tv tv3 =
     (options tv3 = options tv \<and> dataMu tv3 = dataMu tv \<and> data tv3 = data tv
      \<and> readersMu tv3 = readersMu tv
      \<and> listenersMu tv3 = listenersMu tv \<and> listeners tv3 = listeners tv
      \<and> closed tv3 = closed tv \<and> closedCh tv3 = closedCh tv
      \<and> cancelReaders tv3 =
          AList.update p (\<lparr>reader = nextId tv, cancelFunc = nextId tv + 1\<rparr>) (cancelReaders tv)
      \<and> trace tv3 = trace tv @ [NewReader p (nextId tv), GoWatch (nextId tv + 1) (nextId tv)]
      \<and> (\<forall>k. k \<notin> backlog_keys backlog \<longrightarrow>
             index_map (the_data tv3) k = index_map (the_data tv) k)
      \<and> (\<exists>zero. SchemaValueType (options tv) = Some zero
            \<and> the_data tv3 =
                foldl (\<lambda>m msg. apply_record zero msg m) (the_data tv) (backlog_msgs backlog))
      \<and> set (logger tv) \<union> set (backlog_errors p backlog) \<subseteq> set (logger tv3))"

subsection \<open>Concrete inputs\<close>

definition example_options :: "int TableViewOptions" where
  "example_options = \<lparr>Topic = ''t'', Schema = True, SchemaValueType = Some 0\<rparr>"

definition put :: "string \<Rightarrow> int \<Rightarrow> int Message" where
  "put k v = \<lparr>Key = k, Payload = [1], GetSchemaValue = Inr v\<rparr>"

definition undecodable :: "string \<Rightarrow> int Message" where
  "undecodable k = \<lparr>Key = k, Payload = [1], GetSchemaValue = Inl ''bad payload''\<rparr>"

definition tombstone :: "string \<Rightarrow> int Message" where
  "tombstone k = \<lparr>Key = k, Payload = [], GetSchemaValue = Inl ''no payload''\<rparr>"

text \<open>A listener that writes down what it is called with, and one that also fails.\<close>

definition recorder :: "(int, (string \<times> int iface) list) listener" where
  "recorder k v w = (None, w @ [(k, v)])"

definition failing_recorder :: "(int, (string \<times> int iface) list) listener" where
  "failing_recorder k v w = (Some ''boom'', w @ [(k, v)])"

definition fresh :: "(int, (string \<times> int iface) list) state" where
  "fresh = TableViewImpl_literal example_options []"

text \<open>The table view after the records \<open>a \<mapsto> 1\<close> and \<open>b \<mapsto> 2\<close>.\<close>

definition two_entries :: "(int, (string \<times> int iface) list) state" where
  "two_entries = fresh\<lparr>heap := (\<lambda>_. [])(0 := [(''a'', Some 1), (''b'', Some 2)])\<rparr>"

text \<open>\<open>two_entries\<close> after \<open>ForEachAndListen recorder\<close> has returned.\<close>

definition two_entries_subscribed :: "(int, (string \<times> int iface) list) state" where
  "two_entries_subscribed =
     two_entries\<lparr>listeners := [recorder], world := [(''a'', Some 1), (''b'', Some 2)]\<rparr>"

text \<open>
  Brokers: a topic with the one partition \<open>t-0\<close> and an empty backlog, and the same
  topic after the partition has gone.
\<close>

definition one_partition :: "int client" where
  "one_partition = \<lparr>TopicPartitions = Inr [''t-0''], newReader = (\<lambda>p. Inr [])\<rparr>"

definition no_partition :: "int client" where
  "no_partition = \<lparr>TopicPartitions = Inr [], newReader = (\<lambda>p. Inr [])\<rparr>"

text \<open>The table view that \<open>newTableView\<close> builds over \<open>one_partition\<close>.\<close>

definition one_reader :: "(int, (string \<times> int iface) list) state" where
  "one_reader =
     fresh\<lparr>cancelReaders := [(''t-0'', \<lparr>reader = 1, cancelFunc = 2\<rparr>)],
           nextId := 3,
           trace := [NewReader ''t-0'' 1, GoWatch 2 1, GoPeriodicCheck]\<rparr>"

text \<open>
  More brokers for the same topic: one whose reader fails on the first \<open>Next\<close> of the
  backlog and then delivers \<open>x \<mapsto> 5\<close>, and one that refuses to open a reader.
\<close>

definition flaky_fetch :: "int client" where
  "flaky_fetch =
     \<lparr>TopicPartitions = Inr [''t-0''],
      newReader = (\<lambda>p. Inr [(None, Some ''connection reset''), (Some (put ''x'' 5), None)])\<rparr>"

definition unreachable :: "int client" where
  "unreachable =
     \<lparr>TopicPartitions = Inr [''t-0''], newReader = (\<lambda>p. Inl ''connection refused'')\<rparr>"

text \<open>
  A topic with four partitions: \<open>t-2\<close> refuses a reader, and the readers of the
  others fail on the first \<open>Next\<close> of the backlog and then deliver \<open>x \<mapsto> 5\<close>.
\<close>

definition mixed :: "int client" where
  "mixed =
     \<lparr>TopicPartitions = Inr [''t-0'', ''t-1'', ''t-2'', ''t-3''],
      newReader = (\<lambda>p. if p = ''t-2'' then Inl ''connection refused''
                       else Inr [(None, Some ''connection reset''), (Some (put ''x'' 5), None)])\<rparr>"

text \<open>
  A topic with two partitions of which \<open>t-0\<close> refuses a reader, with the partitions
  ranged over in one order and in the other.
\<close>

definition half_reachable :: "string list \<Rightarrow> int client" where
  "half_reachable partitions =
     \<lparr>TopicPartitions = Inr partitions,
      newReader = (\<lambda>p. if p = ''t-0'' then Inl ''connection refused'' else Inr [])\<rparr>"

text \<open>
  The fresh table view after one \<open>partitionUpdateCheck\<close> over \<open>one_partition\<close>, and
  the table view with the one reader that holds the entries \<open>a \<mapsto> 1\<close> and \<open>b \<mapsto> 2\<close>.
\<close>

definition first_reader :: "(int, (string \<times> int iface) list) state" where
  "first_reader =
     fresh\<lparr>cancelReaders := [(''t-0'', \<lparr>reader = 1, cancelFunc = 2\<rparr>)],
           nextId := 3,
           trace := [NewReader ''t-0'' 1, GoWatch 2 1]\<rparr>"

definition serving :: "(int, (string \<times> int iface) list) state" where
  "serving = one_reader\<lparr>heap := (\<lambda>_. [])(0 := [(''a'', Some 1), (''b'', Some 2)])\<rparr>"

section \<open>Properties\<close>

subsection \<open>Basic facts\<close>

lemma obind_simps [simp]:
  "obind (Returned x) f = f x"
  "obind Blocked f = Blocked"
  "obind (Panicked s) f = Panicked s"
  by (simp_all add: obind_def)

lemma Lock_dataMu_free [simp]:
  "\<not> dataMu tv \<Longrightarrow> Lock_dataMu tv = Returned (tv\<lparr>dataMu := True\<rparr>)"
  by (simp add: Lock_dataMu_def)

lemma notify_frame [simp]:
  "options (notify ls k v tv) = options tv"
  "dataMu (notify ls k v tv) = dataMu tv"
  "data (notify ls k v tv) = data tv"
  "readersMu (notify ls k v tv) = readersMu tv"
  "cancelReaders (notify ls k v tv) = cancelReaders tv"
  "listenersMu (notify ls k v tv) = listenersMu tv"
  "listeners (notify ls k v tv) = listeners tv"
  "closed (notify ls k v tv) = closed tv"
  "closedCh (notify ls k v tv) = closedCh tv"
  "heap (notify ls k v tv) = heap tv"
  "nextId (notify ls k v tv) = nextId tv"
  "trace (notify ls k v tv) = trace tv"
  by (induction ls arbitrary: tv; simp split: prod.splits option.splits)+

lemma notify_world:
  "world (notify ls k v tv) = foldl (\<lambda>w l. snd (l k v w)) (world tv) ls"
  by (induction ls arbitrary: tv) (auto split: prod.splits option.splits)

lemma notify_logger_prefix: "\<exists>es. logger (notify ls k v tv) = logger tv @ es"
proof (induction ls arbitrary: tv)
  case Nil
  then show ?case by simp
next
  case (Cons l ls)
  obtain e w' where lw: "l k v (world tv) = (e, w')" by (cases "l k v (world tv)")
  show ?case
  proof (cases e)
    case None
    with lw Cons[of "tv\<lparr>world := w'\<rparr>"] show ?thesis by simp
  next
    case (Some err)
    with lw Cons[of "tv\<lparr>world := w', logger := logger tv @ [ListenerFailed k err]\<rparr>"]
    show ?thesis by auto
  qed
qed

lemma handleMessage_eq:
  assumes "\<not> dataMu tv" and "SchemaValueType (options tv) = Some zero"
  shows "handleMessage msg tv =
    Returned (Unlock_dataMu
      (notify (listeners tv) (Key msg) (Some (payload_value zero msg))
         (set_data (apply_record zero msg (the_data tv))
            (if Payload msg \<noteq> [] \<and> isl (GetSchemaValue msg)
             then tv\<lparr>dataMu := True, logger := logger tv @
                    [GetSchemaValueFailed (projl (GetSchemaValue msg)) (Key msg)]\<rparr>
             else tv\<lparr>dataMu := True\<rparr>))))"
  using assms
  by (cases "GetSchemaValue msg")
     (simp_all add: handleMessage_def set_data_def the_data_def apply_record_def
        payload_value_def Let_def)

lemma handleMessage_returns:
  assumes "\<not> dataMu tv" and "SchemaValueType (options tv) = Some zero"
  shows "\<exists>tv'. handleMessage msg tv = Returned tv'
    \<and> options tv' = options tv \<and> \<not> dataMu tv' \<and> data tv' = data tv
    \<and> readersMu tv' = readersMu tv \<and> cancelReaders tv' = cancelReaders tv
    \<and> listenersMu tv' = listenersMu tv \<and> listeners tv' = listeners tv
    \<and> closed tv' = closed tv \<and> closedCh tv' = closedCh tv
    \<and> nextId tv' = nextId tv \<and> trace tv' = trace tv
    \<and> the_data tv' = apply_record zero msg (the_data tv)
    \<and> world tv' = foldl (\<lambda>w l. snd (l (Key msg) (Some (payload_value zero msg)) w))
                      (world tv) (listeners tv)"
  by (simp add: handleMessage_eq[OF assms] Unlock_dataMu_def set_data_def the_data_def
        notify_world)

lemma Get_free: "\<not> dataMu tv \<Longrightarrow> Get k tv = Returned (index_map (the_data tv) k, tv)"
  by (simp add: Get_def Unlock_dataMu_def the_data_def)

lemma handleMessages_returns:
  assumes "\<not> dataMu tv" and "SchemaValueType (options tv) = Some zero"
  shows "\<exists>tv'. handleMessages msgs tv = Returned tv'
    \<and> options tv' = options tv \<and> \<not> dataMu tv' \<and> listeners tv' = listeners tv
    \<and> the_data tv' = foldl (\<lambda>m msg. apply_record zero msg m) (the_data tv) msgs"
  using assms
proof (induction msgs arbitrary: tv)
  case Nil
  then show ?case by simp
next
  case (Cons msg msgs)
  obtain tv1 where 1: "handleMessage msg tv = Returned tv1" "options tv1 = options tv"
     "\<not> dataMu tv1" "listeners tv1 = listeners tv"
     "the_data tv1 = apply_record zero msg (the_data tv)"
    using handleMessage_returns[OF Cons.prems, of msg] by blast
  from Cons.IH[of tv1] 1 Cons.prems show ?case by simp
qed

lemma forEach_loop_ok:
  "forEach_loop action xs w = (None, w') \<Longrightarrow>
     w' = foldl (\<lambda>w (k, v). snd (action k v w)) w xs"
  by (induction xs arbitrary: w) (auto split: prod.splits option.splits)

lemma closeReaders_frame [simp]:
  "closed (closeReaders es tv) = closed tv"
  "cancelReaders (closeReaders es tv) = cancelReaders tv"
  "readersMu (closeReaders es tv) = readersMu tv"
  by (induction es tv rule: closeReaders.induct; simp)+

lemma closeReaders_trace:
  "trace (closeReaders es tv) = trace tv @ map (\<lambda>(p, cr). ReaderClose (reader cr)) es"
  by (induction es tv rule: closeReaders.induct) auto

lemmas example_defs = fresh_def TableViewImpl_literal_def example_options_def put_def
  tombstone_def undecodable_def recorder_def failing_recorder_def two_entries_def
  two_entries_subscribed_def one_partition_def no_partition_def one_reader_def
  flaky_fetch_def unreachable_def half_reachable_def first_reader_def serving_def
  mixed_def

lemmas method_defs = handleMessage_def ForEachAndListen_def ForEachAndListen_snapshot_def
  ForEachAndListen_register_def ForEach_def Get_def index_map_def
  Lock_dataMu_def Unlock_dataMu_def Lock_listenersMu_def Unlock_listenersMu_def
  Lock_readersMu_def Unlock_readersMu_def the_data_def set_data_def Let_def

text \<open>The concrete states are states the code reaches.\<close>

lemma two_entries_reached:
  "handleMessages [put ''a'' 1, put ''b'' 2] fresh = Returned two_entries"
  by (simp add: example_defs method_defs)

lemma one_reader_built:
  "newTableView one_partition example_options [] = Returned (Inr one_reader)"
  by (simp add: example_defs method_defs newTableView_def partitionUpdateCheck_def)

subsection \<open>Snapshot and subscribe\<close>

text \<open>
  Without another goroutine at work \<open>ForEachAndListen\<close> does what its name says. An
  action that returns an error stops the iteration: the error is returned and the
  action is not registered, so that with the entries \<open>a\<close> and \<open>b\<close> the entry \<open>b\<close>
  is not delivered, and neither is the record \<open>c\<close> applied after the call.
\<close>

lemma snapshot_stops_at_failing_action:
  "obind (handleMessages [put ''a'' 1, put ''b'' 2] fresh) (\<lambda>tv.
     obind (ForEachAndListen failing_recorder tv) (\<lambda>(err, tv1).
       obind (handleMessage (put ''c'' 3) tv1) (\<lambda>tv2.
         Returned (err, the_data tv, world tv2))))
   = Returned (Some ''boom'', [(''a'', Some 1), (''b'', Some 2)], [(''a'', Some 1)])"
  by (simp add: example_defs method_defs)

text \<open>
  When \<open>ForEachAndListen action\<close> returns nil, the action has been run once on every
  entry of the map, in the order of the range, before the call returns; the map is
  unchanged and the action is the last listener; and a record applied afterwards
  runs the action exactly once, after the listeners registered earlier, on the key
  and the value that \<open>handleMessage\<close> hands to the listeners.
\<close>

lemma snapshot_then_subscribe:
  assumes "SchemaValueType (options tv) = Some zero"
    and "ForEachAndListen action tv = Returned (None, tv1)"
  shows "world tv1 = foldl (\<lambda>w (k, v). snd (action k v w)) (world tv) (the_data tv)
       \<and> the_data tv1 = the_data tv
       \<and> listeners tv1 = listeners tv @ [action]
       \<and> (\<forall>msg. \<exists>tv2. handleMessage msg tv1 = Returned tv2
             \<and> listeners tv2 = listeners tv1 \<and> \<not> dataMu tv2
             \<and> world tv2 =
                 snd (action (Key msg) (Some (payload_value zero msg))
                        (foldl (\<lambda>w l. snd (l (Key msg) (Some (payload_value zero msg)) w))
                           (world tv1) (listeners tv))))"
proof -
  from assms(2) have free: "\<not> listenersMu tv" "\<not> dataMu tv"
    by (auto simp: ForEachAndListen_def ForEachAndListen_snapshot_def ForEach_def
          Lock_listenersMu_def Lock_dataMu_def split: if_splits)
  obtain e w' where l: "forEach_loop action (the_data tv) (world tv) = (e, w')"
    by (cases "forEach_loop action (the_data tv) (world tv)")
  from assms(2) free l have e: "e = None"
    and tv1: "tv1 = Unlock_listenersMu
       ((Unlock_dataMu (tv\<lparr>listenersMu := True, dataMu := True, world := w'\<rparr>))
          \<lparr>listeners := listeners tv @ [action]\<rparr>)"
    by (auto simp: ForEachAndListen_def ForEachAndListen_snapshot_def ForEach_def
          ForEachAndListen_register_def Lock_listenersMu_def Lock_dataMu_def the_data_def
          Unlock_dataMu_def
          split: option.splits)
  have w: "world tv1 = foldl (\<lambda>w (k, v). snd (action k v w)) (world tv) (the_data tv)"
    using forEach_loop_ok[of action "the_data tv" "world tv" w'] l e
    by (simp add: tv1 Unlock_listenersMu_def Unlock_dataMu_def)
  have d: "the_data tv1 = the_data tv" "listeners tv1 = listeners tv @ [action]"
    "\<not> dataMu tv1" "options tv1 = options tv"
    by (simp_all add: tv1 Unlock_listenersMu_def Unlock_dataMu_def the_data_def)
  have "\<exists>tv2. handleMessage msg tv1 = Returned tv2
             \<and> listeners tv2 = listeners tv1 \<and> \<not> dataMu tv2
             \<and> world tv2 =
                 snd (action (Key msg) (Some (payload_value zero msg))
                        (foldl (\<lambda>w l. snd (l (Key msg) (Some (payload_value zero msg)) w))
                           (world tv1) (listeners tv)))" for msg
    using handleMessage_returns[of tv1 zero msg] d assms(1) by auto
  with w d show ?thesis by blast
qed

lemma two_entries_subscribed_reached:
  "ForEachAndListen recorder two_entries = Returned (None, two_entries_subscribed)"
  by (simp add: example_defs method_defs)

text \<open>
  C1. No record may be dropped across the snapshot boundary, also when records are
  applied while \<open>ForEachAndListen\<close> runs. \<open>handleMessage\<close> takes \<open>dataMu\<close> only and
  ranges over \<open>tv.listeners\<close> without \<open>listenersMu\<close>; \<open>ForEachAndListen\<close> appends the
  action after \<open>ForEach\<close> has released \<open>dataMu\<close>. So another goroutine can apply
  a record between the return of \<open>ForEach\<close> and the \<open>append\<close>. On the table view
  holding \<open>a\<close>, with the record \<open>b\<close> applied at that point and the record \<open>c\<close> after
  the call has returned nil: the map holds \<open>a\<close>, \<open>b\<close> and \<open>c\<close>, and the action was
  called for \<open>a\<close> and for \<open>c\<close>, never for \<open>b\<close>.
\<close>

theorem record_between_snapshot_and_registration_is_dropped:
  "obind (handleMessages [put ''a'' 1] fresh) (\<lambda>tv.
     obind (ForEachAndListen_snapshot recorder tv) (\<lambda>(err, tv1).
       obind (handleMessage (put ''b'' 2) tv1) (\<lambda>tv2.
         obind (ForEachAndListen_register recorder (err, tv2)) (\<lambda>(err', tv3).
           obind (handleMessage (put ''c'' 3) tv3) (\<lambda>tv4.
             Returned (err', the_data tv4, world tv4))))))
   = Returned (None, [(''a'', Some 1), (''b'', Some 2), (''c'', Some 3)],
               [(''a'', Some 1), (''c'', Some 3)])"
  by (simp add: example_defs method_defs)

subsection \<open>The map returned by \<open>Entries\<close>\<close>

text \<open>
  C2. The map returned by \<open>Entries\<close> should not change when further records are
  applied. On the freshly built table view \<open>Entries\<close> returns the reference
  \<open>tv.data\<close> itself; the map behind it is empty at that time and holds \<open>x\<close> once the
  record \<open>x \<mapsto> 5\<close> has been applied.
\<close>

theorem Entries_result_changes_with_store:
  "obind (Entries fresh) (\<lambda>(m, tv1).
     obind (handleMessage (put ''x'' 5) tv1) (\<lambda>tv2.
       Returned (m = data tv1, heap tv1 m, heap tv2 m)))
   = Returned (True, [], [(''x'', Some 5)])"
  by (simp add: Entries_def example_defs method_defs)

subsection \<open>Reading the size\<close>

text \<open>
  C3. \<open>IsEmpty\<close> should return, and return true exactly when \<open>Size\<close> is zero. It never
  returns: it locks \<open>dataMu\<close> and then calls \<open>Size\<close>, which locks \<open>dataMu\<close> again,
  and a \<open>sync.Mutex\<close> cannot be locked twice by its holder. This holds from every
  state, the freshly built table view included.
\<close>

theorem IsEmpty_never_returns: "IsEmpty tv = Blocked"
  by (simp add: IsEmpty_def Size_def Lock_dataMu_def obind_def)

subsection \<open>Tombstones and the listeners\<close>

text \<open>
  What \<open>handleMessage\<close> does for a tombstone, in every state: the key is deleted, and
  every registered listener is called, in the order of registration, with the key
  and the zero value that \<open>reflect.New\<close> has allocated and nothing has filled.
\<close>

lemma tombstone_notifies_zero_value:
  assumes "Payload msg = []" and "\<not> dataMu tv" and "SchemaValueType (options tv) = Some zero"
  shows "\<exists>tv'. handleMessage msg tv = Returned tv'
           \<and> world tv' = foldl (\<lambda>w l. snd (l (Key msg) (Some zero) w)) (world tv) (listeners tv)
           \<and> Get (Key msg) tv' = Returned (None, tv')"
proof -
  obtain tv' where r: "handleMessage msg tv = Returned tv'" and f: "\<not> dataMu tv'"
    and d: "the_data tv' = apply_record zero msg (the_data tv)"
    and w: "world tv' = foldl (\<lambda>w l. snd (l (Key msg) (Some (payload_value zero msg)) w))
                      (world tv) (listeners tv)"
    using handleMessage_returns[OF assms(2,3), of msg] by blast
  have "map_of (the_data tv') (Key msg) = None"
    using assms(1) by (simp add: d apply_record_def delete_conv')
  then show ?thesis using r f w assms(1) by (simp add: Get_free index_map_def payload_value_def)
qed

text \<open>
  C5. For a tombstone the listeners should be told that the key has no value, which
  is what was applied to the map. A listener registered on the table view holding
  \<open>k \<mapsto> 7\<close> is called with \<open>(k, Some 0)\<close> when the tombstone for \<open>k\<close> is applied, not
  with the nil interface, while \<open>Get k\<close> answers nil afterwards. The listener is
  called in the same way when the record \<open>k \<mapsto> 0\<close> is applied instead, after which
  \<open>Get k\<close> answers 0: it cannot tell the deletion from that record.
\<close>

theorem tombstone_notified_as_zero_value:
  "obind (handleMessages [put ''k'' 7] fresh) (\<lambda>tv.
     obind (ForEachAndListen recorder tv) (\<lambda>(err, tv1).
       obind (handleMessage (tombstone ''k'') tv1) (\<lambda>tv2.
         obind (Get ''k'' tv2) (\<lambda>(v, tv3).
           obind (handleMessage (put ''k'' 0) tv1) (\<lambda>tv2'.
             obind (Get ''k'' tv2') (\<lambda>(v', tv3').
               Returned (world tv3, v, world tv3', v')))))))
   = Returned ([(''k'', Some 7), (''k'', Some 0)], None,
               [(''k'', Some 7), (''k'', Some 0)], Some 0)"
  by (simp add: example_defs method_defs)

subsection \<open>Closing\<close>

lemma Close_never_cancels:
  "Close tv = Returned tv' \<Longrightarrow> CancelFunc c \<in> set (trace tv') \<Longrightarrow> CancelFunc c \<in> set (trace tv)"
  by (auto simp: Close_def Lock_readersMu_def Unlock_readersMu_def closeReaders_trace
      split: if_splits)

lemma Close_closes_channel:
  "Close tv = Returned tv' \<Longrightarrow> \<not> closed tv \<Longrightarrow> closed tv' \<and> closedCh tv'"
  by (auto simp: Close_def Lock_readersMu_def Unlock_readersMu_def split: if_splits)

lemma Close_twice: "\<not> readersMu tv \<Longrightarrow> obind (Close tv) Close = Close tv"
  by (simp add: Close_def Lock_readersMu_def Unlock_readersMu_def)

text \<open>
  C6. The first \<open>Close\<close> should invoke the cancellation handle of every entry, close
  every reader and stop the watcher. On the table view with the one reader 1 and its
  context 2, \<open>Close\<close> closes reader 1 and closes \<open>closedCh\<close>, and \<open>cancelFunc\<close> of
  context 2 is not called; the removal of a partition in \<open>partitionUpdateCheck\<close>, on
  the same state, calls both.
\<close>

theorem Close_skips_cancelFunc:
  "map_outcome (\<lambda>tv. (trace tv, closedCh tv)) (Close one_reader)
     = Returned ([NewReader ''t-0'' 1, GoWatch 2 1, GoPeriodicCheck, ReaderClose 1], True)
   \<and> map_outcome (\<lambda>(err, tv). trace tv) (partitionUpdateCheck no_partition one_reader)
     = Returned [NewReader ''t-0'' 1, GoWatch 2 1, GoPeriodicCheck, CancelFunc 2, ReaderClose 1]"
  by (simp add: example_defs method_defs Close_def partitionUpdateCheck_def)

subsection \<open>Reconciling: the loops\<close>

text \<open>
  \<open>partitionUpdateCheck\<close> ranges over the keys of the map \<open>partitions\<close> in the order
  of the array without its duplicates, and over \<open>cancelReaders\<close> in the order of the
  list. Go leaves both orders open; the array and the list are arbitrary in every
  statement below.
\<close>

lemma index_map_apply_record:
  "Key msg \<noteq> k \<Longrightarrow> index_map (apply_record zero msg m) k = index_map m k"
  by (simp add: index_map_def apply_record_def update_conv' delete_conv')

lemma drain_returns:
  assumes "\<not> dataMu tv" and "SchemaValueType (options tv) = Some zero"
  shows "\<exists>tv'. drain p backlog tv = Returned tv'
    \<and> options tv' = options tv \<and> \<not> dataMu tv' \<and> data tv' = data tv
    \<and> readersMu tv' = readersMu tv \<and> cancelReaders tv' = cancelReaders tv
    \<and> listenersMu tv' = listenersMu tv \<and> listeners tv' = listeners tv
    \<and> closed tv' = closed tv \<and> closedCh tv' = closedCh tv
    \<and> nextId tv' = nextId tv \<and> trace tv' = trace tv
    \<and> (\<forall>k. k \<notin> backlog_keys backlog \<longrightarrow>
           index_map (the_data tv') k = index_map (the_data tv) k)"
  using assms
proof (induction backlog arbitrary: tv)
  case Nil
  then show ?case by simp
next
  case (Cons f backlog)
  obtain msg err where f: "f = (msg, err)" by (cases f)
  define tv1 where "tv1 = (case err of None \<Rightarrow> tv
                           | Some e \<Rightarrow> tv\<lparr>logger := logger tv @ [ReadNextFailed p e]\<rparr>)"
  have tv1: "options tv1 = options tv" "\<not> dataMu tv1" "data tv1 = data tv"
    "readersMu tv1 = readersMu tv" "cancelReaders tv1 = cancelReaders tv"
    "listenersMu tv1 = listenersMu tv" "listeners tv1 = listeners tv"
    "closed tv1 = closed tv" "closedCh tv1 = closedCh tv"
    "nextId tv1 = nextId tv" "trace tv1 = trace tv" "the_data tv1 = the_data tv"
    using Cons.prems by (simp_all add: tv1_def the_data_def split: option.splits)
  show ?case
  proof (cases msg)
    case None
    have "drain p (f # backlog) tv = drain p backlog tv1"
      by (simp add: f None tv1_def)
    moreover have "backlog_keys (f # backlog) = backlog_keys backlog"
      by (simp add: backlog_keys_def f None)
    ultimately show ?thesis
      using Cons.IH[of tv1] tv1 Cons.prems by simp
  next
    case (Some m)
    obtain tv2 where 2: "handleMessage m tv1 = Returned tv2" "options tv2 = options tv1"
      "\<not> dataMu tv2" "data tv2 = data tv1" "readersMu tv2 = readersMu tv1"
      "cancelReaders tv2 = cancelReaders tv1" "listenersMu tv2 = listenersMu tv1"
      "listeners tv2 = listeners tv1" "closed tv2 = closed tv1" "closedCh tv2 = closedCh tv1"
      "nextId tv2 = nextId tv1" "trace tv2 = trace tv1"
      "the_data tv2 = apply_record zero m (the_data tv1)"
      using handleMessage_returns[of tv1 zero m] tv1 Cons.prems by auto
    have d: "drain p (f # backlog) tv = drain p backlog tv2"
      using 2(1) by (simp add: f Some tv1_def)
    have k: "backlog_keys (f # backlog) = insert (Key m) (backlog_keys backlog)"
      by (simp add: backlog_keys_def f Some)
    have i: "k \<noteq> Key m \<Longrightarrow> index_map (the_data tv2) k = index_map (the_data tv) k" for k
      using index_map_apply_record[of m k zero "the_data tv1"] 2 tv1 by auto
    from Cons.IH[of tv2] 2 tv1 Cons.prems
    obtain tv' where "drain p backlog tv2 = Returned tv'"
      "options tv' = options tv" "\<not> dataMu tv'" "data tv' = data tv"
      "readersMu tv' = readersMu tv" "cancelReaders tv' = cancelReaders tv"
      "listenersMu tv' = listenersMu tv" "listeners tv' = listeners tv"
      "closed tv' = closed tv" "closedCh tv' = closedCh tv"
      "nextId tv' = nextId tv" "trace tv' = trace tv"
      "\<forall>k. k \<notin> backlog_keys backlog \<longrightarrow>
           index_map (the_data tv') k = index_map (the_data tv2) k"
      by auto
    then show ?thesis using d k i by auto
  qed
qed


lemma handleMessage_logger:
  assumes "\<not> dataMu tv" and "SchemaValueType (options tv) = Some zero"
    and "handleMessage msg tv = Returned tv'"
  shows "set (logger tv) \<subseteq> set (logger tv')"
proof -
  let ?tv1 = "if Payload msg \<noteq> [] \<and> isl (GetSchemaValue msg)
             then tv\<lparr>dataMu := True, logger := logger tv @
                    [GetSchemaValueFailed (projl (GetSchemaValue msg)) (Key msg)]\<rparr>
             else tv\<lparr>dataMu := True\<rparr>"
  let ?tv2 = "set_data (apply_record zero msg (the_data tv)) ?tv1"
  obtain es where "logger (notify (listeners tv) (Key msg) (Some (payload_value zero msg)) ?tv2)
                     = logger ?tv2 @ es"
    using notify_logger_prefix[of "listeners tv" "Key msg" "Some (payload_value zero msg)" ?tv2]
    by blast
  moreover have "set (logger tv) \<subseteq> set (logger ?tv2)"
    by (auto simp: set_data_def)
  ultimately show ?thesis
    using assms(3) handleMessage_eq[OF assms(1,2), of msg]
    by (auto simp: Unlock_dataMu_def)
qed

lemma drain_effect:
  assumes "\<not> dataMu tv" and "SchemaValueType (options tv) = Some zero"
    and "drain p backlog tv = Returned tv'"
  shows "the_data tv' =
           foldl (\<lambda>m msg. apply_record zero msg m) (the_data tv) (backlog_msgs backlog)
       \<and> set (logger tv) \<union> set (backlog_errors p backlog) \<subseteq> set (logger tv')"
  using assms
proof (induction backlog arbitrary: tv)
  case Nil
  then show ?case by (simp add: backlog_msgs_def backlog_errors_def)
next
  case (Cons f backlog)
  obtain msg err where f: "f = (msg, err)" by (cases f)
  define tv1 where "tv1 = (case err of None \<Rightarrow> tv
                           | Some e \<Rightarrow> tv\<lparr>logger := logger tv @ [ReadNextFailed p e]\<rparr>)"
  have tv1: "options tv1 = options tv" "\<not> dataMu tv1" "the_data tv1 = the_data tv"
    using Cons.prems by (simp_all add: tv1_def the_data_def split: option.splits)
  have l1: "set (logger tv1) = set (logger tv) \<union> set (backlog_errors p [f])"
    by (auto simp: tv1_def f backlog_errors_def split: option.splits)
  have be: "backlog_errors p (f # backlog) = backlog_errors p [f] @ backlog_errors p backlog"
    by (simp add: backlog_errors_def)
  show ?case
  proof (cases msg)
    case None
    have d: "drain p backlog tv1 = Returned tv'"
      using Cons.prems(3) by (simp add: f None tv1_def)
    have m: "backlog_msgs (f # backlog) = backlog_msgs backlog"
      by (simp add: backlog_msgs_def f None)
    from Cons.IH[OF tv1(2) _ d] tv1 Cons.prems(2)
    have "the_data tv' =
            foldl (\<lambda>m msg. apply_record zero msg m) (the_data tv) (backlog_msgs backlog)"
      and "set (logger tv1) \<union> set (backlog_errors p backlog) \<subseteq> set (logger tv')"
      by simp_all
    then show ?thesis using l1 by (auto simp: m be)
  next
    case (Some m)
    obtain tv2 where 2: "handleMessage m tv1 = Returned tv2" "options tv2 = options tv1"
      "\<not> dataMu tv2" "the_data tv2 = apply_record zero m (the_data tv1)"
      using handleMessage_returns[of tv1 zero m] tv1 Cons.prems by auto
    have l2: "set (logger tv1) \<subseteq> set (logger tv2)"
      using handleMessage_logger[OF tv1(2) _ 2(1)] tv1(1) Cons.prems(2) by simp
    have d: "drain p backlog tv2 = Returned tv'"
      using Cons.prems(3) 2(1) by (simp add: f Some tv1_def)
    have m: "backlog_msgs (f # backlog) = m # backlog_msgs backlog"
      by (simp add: backlog_msgs_def f Some)
    from Cons.IH[OF 2(3) _ d] 2 tv1 Cons.prems(2)
    have "the_data tv' =
            foldl (\<lambda>m msg. apply_record zero msg m) (apply_record zero m (the_data tv))
              (backlog_msgs backlog)"
      and "set (logger tv2) \<union> set (backlog_errors p backlog) \<subseteq> set (logger tv')"
      by simp_all
    then show ?thesis using l1 l2 by (auto simp: m be)
  qed
qed

lemma addNew_open:
  assumes "map_of (cancelReaders tv) p = None" and "newReader c p = Inr backlog"
    and "\<not> dataMu tv" and "SchemaValueType (options tv) = Some zero"
  shows "\<exists>tv3. addNew c (p # rest) tv = addNew c rest tv3 \<and> opened p backlog tv tv3"
proof -
  define tv1 where "tv1 = tv\<lparr>nextId := nextId tv + 1, trace := trace tv @ [NewReader p (nextId tv)]\<rparr>"
  have 1: "\<not> dataMu tv1" "SchemaValueType (options tv1) = Some zero"
    using assms by (simp_all add: tv1_def)
  from drain_returns[OF 1, of p backlog]
  obtain tv2 where 2: "drain p backlog tv1 = Returned tv2"
    "options tv2 = options tv1" "\<not> dataMu tv2" "data tv2 = data tv1"
    "readersMu tv2 = readersMu tv1" "cancelReaders tv2 = cancelReaders tv1"
    "listenersMu tv2 = listenersMu tv1" "listeners tv2 = listeners tv1"
    "closed tv2 = closed tv1" "closedCh tv2 = closedCh tv1"
    "nextId tv2 = nextId tv1" "trace tv2 = trace tv1"
    "\<forall>k. k \<notin> backlog_keys backlog \<longrightarrow>
           index_map (the_data tv2) k = index_map (the_data tv1) k"
    by blast
  define tv3 where "tv3 = tv2\<lparr>nextId := nextId tv2 + 1,
       cancelReaders := AList.update p (\<lparr>reader = nextId tv, cancelFunc = nextId tv2\<rparr>)
                          (cancelReaders tv2),
       trace := trace tv2 @ [GoWatch (nextId tv2) (nextId tv)]\<rparr>"
  have "addNew c (p # rest) tv = addNew c rest tv3"
    using assms(1,2) 2(1)[unfolded tv1_def] by (simp add: tv3_def Let_def)
  moreover have d: "the_data tv3 = the_data tv2" "the_data tv1 = the_data tv"
    by (simp_all add: tv3_def tv1_def the_data_def)
  moreover have "the_data tv3 =
      foldl (\<lambda>m msg. apply_record zero msg m) (the_data tv) (backlog_msgs backlog)"
    "set (logger tv) \<union> set (backlog_errors p backlog) \<subseteq> set (logger tv3)"
    using drain_effect[OF 1 2(1)] d by (simp_all add: tv3_def tv1_def)
  ultimately show ?thesis
    using 2 assms(3,4) by (intro exI[of _ tv3]) (simp add: opened_def tv3_def tv1_def)
qed

lemma addNew_returns:
  assumes "\<not> dataMu tv" and "SchemaValueType (options tv) = Some zero"
  shows "\<exists>err tv'. addNew c ps tv = Returned (err, tv')"
  using assms
proof (induction ps arbitrary: tv)
  case Nil
  then show ?case by simp
next
  case (Cons p rest)
  show ?case
  proof (cases "map_of (cancelReaders tv) p")
    case (Some e)
    with Cons.IH[OF Cons.prems] show ?thesis by simp
  next
    case None
    show ?thesis
    proof (cases "newReader c p")
      case (Inl err)
      with None show ?thesis by simp
    next
      case (Inr backlog)
      from addNew_open[OF None Inr Cons.prems, of rest]
      obtain tv3 where 3: "addNew c (p # rest) tv = addNew c rest tv3" "opened p backlog tv tv3"
        by blast
      from 3(2) Cons.prems have "\<not> dataMu tv3" "SchemaValueType (options tv3) = Some zero"
        by (simp_all add: opened_def)
      from Cons.IH[OF this] 3(1) show ?thesis by simp
    qed
  qed
qed

lemma addNew_cases:
  assumes "\<not> dataMu tv" and "SchemaValueType (options tv) = Some zero"
    and "addNew c ps tv = Returned (err, tv')"
    and base: "\<And>tv. P [] tv None tv"
    and skip: "\<And>p rest tv err tv'. map_of (cancelReaders tv) p \<noteq> None \<Longrightarrow>
                 P rest tv err tv' \<Longrightarrow> P (p # rest) tv err tv'"
    and fail: "\<And>p rest tv e. map_of (cancelReaders tv) p = None \<Longrightarrow> newReader c p = Inl e \<Longrightarrow>
                 P (p # rest) tv (Some (''create new reader failed for '' @ p @ '': '' @ e)) tv"
    and "open": "\<And>p rest tv backlog tv3 err tv'. map_of (cancelReaders tv) p = None \<Longrightarrow>
                 newReader c p = Inr backlog \<Longrightarrow> opened p backlog tv tv3 \<Longrightarrow>
                 P rest tv3 err tv' \<Longrightarrow> P (p # rest) tv err tv'"
  shows "P ps tv err tv'"
  using assms(1-3)
proof (induction ps arbitrary: tv)
  case Nil
  then show ?case using base by simp
next
  case (Cons p rest)
  show ?case
  proof (cases "map_of (cancelReaders tv) p")
    case (Some e)
    then have "addNew c rest tv = Returned (err, tv')" using Cons.prems(3) by simp
    from Cons.IH[OF Cons.prems(1,2) this] Some show ?thesis by (intro skip) simp_all
  next
    case None
    show ?thesis
    proof (cases "newReader c p")
      case (Inl e)
      with None Cons.prems(3) fail[OF None Inl, of rest] show ?thesis by simp
    next
      case (Inr backlog)
      from addNew_open[OF None Inr Cons.prems(1,2), of rest]
      obtain tv3 where 3: "addNew c (p # rest) tv = addNew c rest tv3" "opened p backlog tv tv3"
        by blast
      from 3(2) Cons.prems have i: "\<not> dataMu tv3" "SchemaValueType (options tv3) = Some zero"
        by (simp_all add: opened_def)
      from 3(1) Cons.prems(3) have "addNew c rest tv3 = Returned (err, tv')" by simp
      from Cons.IH[OF i this] show ?thesis by (rule "open"[OF None Inr 3(2)])
    qed
  qed
qed

lemma addNew_frame:
  assumes "\<not> dataMu tv" and "SchemaValueType (options tv) = Some zero"
    and "addNew c ps tv = Returned (err, tv')"
  shows "options tv' = options tv \<and> dataMu tv' = dataMu tv \<and> data tv' = data tv
       \<and> readersMu tv' = readersMu tv
       \<and> listenersMu tv' = listenersMu tv \<and> listeners tv' = listeners tv
       \<and> closed tv' = closed tv \<and> closedCh tv' = closedCh tv"
  by (rule addNew_cases[OF assms]) (simp_all add: opened_def)

lemma opened_registry:
  "opened p backlog tv tv3 \<Longrightarrow>
     map_of (cancelReaders tv3) =
       (map_of (cancelReaders tv))(p \<mapsto> \<lparr>reader = nextId tv, cancelFunc = nextId tv + 1\<rparr>)"
  by (simp add: opened_def update_conv')

lemma opened_trace:
  "opened p backlog tv tv3 \<Longrightarrow>
     trace tv3 = trace tv @ [NewReader p (nextId tv), GoWatch (nextId tv + 1) (nextId tv)]"
  by (simp add: opened_def)


lemma addNew_error_iff:
  assumes "\<not> dataMu tv" and "SchemaValueType (options tv) = Some zero"
    and "addNew c ps tv = Returned (err, tv')"
  shows "(err = None) = (\<forall>p\<in>set ps. map_of (cancelReaders tv) p \<noteq> None \<or> opens c p)"
proof (rule addNew_cases[OF assms], goal_cases)
  case (4 p rest tv backlog tv3 err tv')
  from 4(2) have "opens c p" by (simp add: opens_def)
  with 4(1,4) opened_registry[OF 4(3)] show ?case by auto
qed (auto simp: opens_def)

lemma addNew_registry:
  assumes "\<not> dataMu tv" and "SchemaValueType (options tv) = Some zero"
    and "addNew c ps tv = Returned (err, tv')"
  shows "(\<forall>q e. map_of (cancelReaders tv) q = Some e \<longrightarrow> map_of (cancelReaders tv') q = Some e)
       \<and> (err = None \<longrightarrow> (\<forall>p\<in>set ps. map_of (cancelReaders tv') p \<noteq> None))
       \<and> (\<forall>q. map_of (cancelReaders tv') q \<noteq> None \<longrightarrow>
              map_of (cancelReaders tv) q \<noteq> None \<or> q \<in> set ps)
       \<and> (\<exists>evs. trace tv' = trace tv @ evs
              \<and> (\<forall>q r. NewReader q r \<in> set evs \<longrightarrow>
                    (\<exists>ctx. map_of (cancelReaders tv') q = Some \<lparr>reader = r, cancelFunc = ctx\<rparr>)))"
proof (rule addNew_cases[OF assms], goal_cases)
  case (1 tv)
  then show ?case by simp
next
  case (2 p rest tv err tv')
  then show ?case by auto
next
  case (3 p rest tv e)
  then show ?case by simp
next
  case (4 p rest tv backlog tv3 err tv')
  let ?e0 = "\<lparr>reader = nextId tv, cancelFunc = nextId tv + 1\<rparr>"
  note m3 = opened_registry[OF 4(3)]
  from 4(4) have keeps3:
    "\<And>q e. map_of (cancelReaders tv3) q = Some e \<Longrightarrow> map_of (cancelReaders tv') q = Some e"
    and all3: "err = None \<Longrightarrow> \<forall>p\<in>set rest. map_of (cancelReaders tv') p \<noteq> None"
    and only3: "\<And>q. map_of (cancelReaders tv') q \<noteq> None \<Longrightarrow>
              map_of (cancelReaders tv3) q \<noteq> None \<or> q \<in> set rest"
    by blast+
  from 4(4) obtain evs where evs: "trace tv' = trace tv3 @ evs"
    "\<And>q r. NewReader q r \<in> set evs \<Longrightarrow>
        \<exists>ctx. map_of (cancelReaders tv') q = Some \<lparr>reader = r, cancelFunc = ctx\<rparr>"
    by blast
  have p': "map_of (cancelReaders tv') p = Some ?e0"
    by (rule keeps3) (simp add: m3)
  have a: "\<forall>q e. map_of (cancelReaders tv) q = Some e \<longrightarrow> map_of (cancelReaders tv') q = Some e"
  proof (intro allI impI)
    fix q e assume q: "map_of (cancelReaders tv) q = Some e"
    with 4(1) have "q \<noteq> p" by auto
    with q have "map_of (cancelReaders tv3) q = Some e" by (simp add: m3)
    then show "map_of (cancelReaders tv') q = Some e" by (rule keeps3)
  qed
  have b: "err = None \<longrightarrow> (\<forall>q\<in>set (p # rest). map_of (cancelReaders tv') q \<noteq> None)"
    using all3 p' by simp
  have c: "\<forall>q. map_of (cancelReaders tv') q \<noteq> None \<longrightarrow>
              map_of (cancelReaders tv) q \<noteq> None \<or> q \<in> set (p # rest)"
  proof (intro allI impI)
    fix q assume "map_of (cancelReaders tv') q \<noteq> None"
    from only3[OF this] show "map_of (cancelReaders tv) q \<noteq> None \<or> q \<in> set (p # rest)"
      by (cases "q = p") (simp_all add: m3)
  qed
  let ?evs = "[NewReader p (nextId tv), GoWatch (nextId tv + 1) (nextId tv)] @ evs"
  have d1: "trace tv' = trace tv @ ?evs"
    by (simp add: evs(1) opened_trace[OF 4(3)])
  have d2: "\<forall>q r. NewReader q r \<in> set ?evs \<longrightarrow>
                    (\<exists>ctx. map_of (cancelReaders tv') q = Some \<lparr>reader = r, cancelFunc = ctx\<rparr>)"
    using evs(2) p' by auto
  from d1 d2 have d: "\<exists>evs. trace tv' = trace tv @ evs
              \<and> (\<forall>q r. NewReader q r \<in> set evs \<longrightarrow>
                    (\<exists>ctx. map_of (cancelReaders tv') q = Some \<lparr>reader = r, cancelFunc = ctx\<rparr>))"
    by blast
  from a b c d show ?case by blast
qed


lemma registered_iff: "(map_of al p \<noteq> None) = (p \<in> fst ` set al)"
  by (simp add: map_of_eq_None_iff)

lemma opened_keys:
  "opened p backlog tv tv3 \<Longrightarrow>
     fst ` set (cancelReaders tv3) = insert p (fst ` set (cancelReaders tv))"
  by (simp add: opened_def dom_update)

lemma opened_options: "opened p backlog tv tv3 \<Longrightarrow> options tv3 = options tv"
  by (simp add: opened_def)

lemma opened_store:
  "opened p backlog tv tv3 \<Longrightarrow> SchemaValueType (options tv) = Some zero \<Longrightarrow>
     the_data tv3 = foldl (\<lambda>m msg. apply_record zero msg m) (the_data tv) (backlog_msgs backlog)"
  by (auto simp: opened_def)

lemma opened_logger:
  "opened p backlog tv tv3 \<Longrightarrow>
     set (logger tv) \<union> set (backlog_errors p backlog) \<subseteq> set (logger tv3)"
  by (simp add: opened_def)

lemma opened_partitions_append:
  "opened_partitions (xs @ ys) = opened_partitions xs @ opened_partitions ys"
  by (induction xs rule: opened_partitions.induct) simp_all

lemma newly_opened_restrict:
  "registered \<inter> set ps = registered' \<inter> set ps \<Longrightarrow>
     newly_opened c ps registered = newly_opened c ps registered'"
proof (induction ps arbitrary: registered registered')
  case Nil
  then show ?case by simp
next
  case (Cons p rest)
  from Cons.prems have m: "(p \<in> registered) = (p \<in> registered')" by auto
  from Cons.prems have 1: "registered \<inter> set rest = registered' \<inter> set rest" by auto
  from Cons.prems have 2: "insert p registered \<inter> set rest = insert p registered' \<inter> set rest"
    by auto
  show ?case
    using Cons.IH[OF 1] Cons.IH[OF 2] m by (simp split: sum.splits)
qed

lemma first_refused_restrict:
  "registered \<inter> set ps = registered' \<inter> set ps \<Longrightarrow>
     first_refused c ps registered = first_refused c ps registered'"
proof (induction ps arbitrary: registered registered')
  case Nil
  then show ?case by simp
next
  case (Cons p rest)
  from Cons.prems have m: "(p \<in> registered) = (p \<in> registered')" by auto
  from Cons.prems have 1: "registered \<inter> set rest = registered' \<inter> set rest" by auto
  from Cons.prems have 2: "insert p registered \<inter> set rest = insert p registered' \<inter> set rest"
    by auto
  show ?case
    using Cons.IH[OF 1] Cons.IH[OF 2] m by (simp split: sum.splits)
qed

lemma addNew_error:
  assumes "\<not> dataMu tv" and "SchemaValueType (options tv) = Some zero"
    and "addNew c ps tv = Returned (err, tv')"
  shows "err = (case first_refused c ps (fst ` set (cancelReaders tv)) of
                  None \<Rightarrow> None
                | Some (p, e) \<Rightarrow> Some (''create new reader failed for '' @ p @ '': '' @ e))"
proof (rule addNew_cases[OF assms], goal_cases)
  case (1 tv)
  then show ?case by simp
next
  case (2 p rest tv err tv')
  from 2(2) 2(1)[unfolded registered_iff] show ?case by simp
next
  case (3 p rest tv e)
  then show ?case by (simp add: registered_iff[symmetric])
next
  case (4 p rest tv backlog tv3 err tv')
  then show ?case by (simp add: registered_iff[symmetric] opened_keys)
qed

lemma addNew_opens:
  assumes "\<not> dataMu tv" and "SchemaValueType (options tv) = Some zero"
    and "addNew c ps tv = Returned (err, tv')"
  shows "(\<exists>evs. trace tv' = trace tv @ evs
            \<and> opened_partitions evs = newly_opened c ps (fst ` set (cancelReaders tv)))
       \<and> fst ` set (cancelReaders tv') =
            fst ` set (cancelReaders tv) \<union> set (newly_opened c ps (fst ` set (cancelReaders tv)))"
proof (rule addNew_cases[OF assms], goal_cases)
  case (1 tv)
  then show ?case by simp
next
  case (2 p rest tv err tv')
  from 2(2) 2(1)[unfolded registered_iff] show ?case by simp
next
  case (3 p rest tv e)
  then show ?case by (simp add: registered_iff[symmetric])
next
  case (4 p rest tv backlog tv3 err tv')
  let ?K = "fst ` set (cancelReaders tv)"
  from 4(1) have n: "p \<notin> ?K" by (simp add: registered_iff[symmetric])
  note k3 = opened_keys[OF 4(3)]
  from 4(4) obtain evs where evs: "trace tv' = trace tv3 @ evs"
    "opened_partitions evs = newly_opened c rest (insert p ?K)"
    and keys: "fst ` set (cancelReaders tv') =
                 insert p ?K \<union> set (newly_opened c rest (insert p ?K))"
    unfolding k3 by blast
  have no: "newly_opened c (p # rest) ?K = p # newly_opened c rest (insert p ?K)"
    using n 4(2) by simp
  let ?evs = "[NewReader p (nextId tv), GoWatch (nextId tv + 1) (nextId tv)] @ evs"
  have "trace tv' = trace tv @ ?evs"
    by (simp add: evs(1) opened_trace[OF 4(3)])
  moreover have "opened_partitions ?evs = newly_opened c (p # rest) ?K"
    unfolding no by (simp add: evs(2))
  ultimately have a: "\<exists>evs. trace tv' = trace tv @ evs
            \<and> opened_partitions evs = newly_opened c (p # rest) ?K"
    by blast
  have b: "fst ` set (cancelReaders tv') = ?K \<union> set (newly_opened c (p # rest) ?K)"
    unfolding keys no by auto
  from a b show ?case by blast
qed

lemma addNew_store:
  assumes "\<not> dataMu tv" and "SchemaValueType (options tv) = Some zero"
    and "addNew c ps tv = Returned (err, tv')"
  shows "SchemaValueType (options tv) = Some zero \<longrightarrow>
         the_data tv' =
           foldl (\<lambda>m msg. apply_record zero msg m) (the_data tv)
             (concat (map (\<lambda>p. backlog_msgs (backlog_of c p))
                        (newly_opened c ps (fst ` set (cancelReaders tv)))))"
proof (rule addNew_cases[OF assms], goal_cases)
  case (1 tv)
  then show ?case by simp
next
  case (2 p rest tv err tv')
  from 2(2) 2(1)[unfolded registered_iff] show ?case by simp
next
  case (3 p rest tv e)
  then show ?case by (simp add: registered_iff[symmetric])
next
  case (4 p rest tv backlog tv3 err tv')
  let ?K = "fst ` set (cancelReaders tv)"
  from 4(1) have n: "p \<notin> ?K" by (simp add: registered_iff[symmetric])
  have no: "newly_opened c (p # rest) ?K = p # newly_opened c rest (insert p ?K)"
    using n 4(2) by simp
  have b: "backlog_of c p = backlog" by (simp add: backlog_of_def 4(2))
  show ?case
  proof
    assume z: "SchemaValueType (options tv) = Some zero"
    with 4(4) have "the_data tv' =
           foldl (\<lambda>m msg. apply_record zero msg m) (the_data tv3)
             (concat (map (\<lambda>p. backlog_msgs (backlog_of c p))
                        (newly_opened c rest (insert p ?K))))"
      by (simp add: opened_options[OF 4(3)] opened_keys[OF 4(3)])
    then show "the_data tv' =
           foldl (\<lambda>m msg. apply_record zero msg m) (the_data tv)
             (concat (map (\<lambda>p. backlog_msgs (backlog_of c p))
                        (newly_opened c (p # rest) ?K)))"
      unfolding no by (simp add: b opened_store[OF 4(3) z])
  qed
qed

lemma addNew_logger:
  assumes "\<not> dataMu tv" and "SchemaValueType (options tv) = Some zero"
    and "addNew c ps tv = Returned (err, tv')"
  shows "set (logger tv) \<subseteq> set (logger tv')
       \<and> (\<forall>p\<in>set (newly_opened c ps (fst ` set (cancelReaders tv))).
             set (backlog_errors p (backlog_of c p)) \<subseteq> set (logger tv'))"
proof (rule addNew_cases[OF assms], goal_cases)
  case (1 tv)
  then show ?case by simp
next
  case (2 p rest tv err tv')
  from 2(2) 2(1)[unfolded registered_iff] show ?case by simp
next
  case (3 p rest tv e)
  then show ?case by (simp add: registered_iff[symmetric])
next
  case (4 p rest tv backlog tv3 err tv')
  let ?K = "fst ` set (cancelReaders tv)"
  from 4(1) have n: "p \<notin> ?K" by (simp add: registered_iff[symmetric])
  have no: "newly_opened c (p # rest) ?K = p # newly_opened c rest (insert p ?K)"
    using n 4(2) by simp
  have b: "backlog_of c p = backlog" by (simp add: backlog_of_def 4(2))
  note l3 = opened_logger[OF 4(3)]
  from 4(4) have ih: "set (logger tv3) \<subseteq> set (logger tv')"
    "\<forall>q\<in>set (newly_opened c rest (insert p ?K)).
        set (backlog_errors q (backlog_of c q)) \<subseteq> set (logger tv')"
    by (simp_all add: opened_keys[OF 4(3)])
  from l3 ih(1) have 1: "set (logger tv) \<subseteq> set (logger tv')"
    and 2: "set (backlog_errors p (backlog_of c p)) \<subseteq> set (logger tv')"
    unfolding b by auto
  from 1 2 ih(2) show ?case unfolding no by simp
qed

lemma addNew_noop:
  "\<forall>p\<in>set ps. map_of (cancelReaders tv) p \<noteq> None \<Longrightarrow> addNew c ps tv = Returned (None, tv)"
  by (induction ps) auto

lemma removeStale_frame [simp]:
  "options (removeStale ps es tv) = options tv"
  "dataMu (removeStale ps es tv) = dataMu tv"
  "data (removeStale ps es tv) = data tv"
  "readersMu (removeStale ps es tv) = readersMu tv"
  "listenersMu (removeStale ps es tv) = listenersMu tv"
  "listeners (removeStale ps es tv) = listeners tv"
  "closed (removeStale ps es tv) = closed tv"
  "closedCh (removeStale ps es tv) = closedCh tv"
  "heap (removeStale ps es tv) = heap tv"
  "world (removeStale ps es tv) = world tv"
  "logger (removeStale ps es tv) = logger tv"
  "nextId (removeStale ps es tv) = nextId tv"
  by (induction ps es tv rule: removeStale.induct; simp)+

lemma removeStale_registry:
  "map_of (cancelReaders (removeStale ps es tv)) q =
     (if q \<in> fst ` set es \<and> q \<notin> set ps then None else map_of (cancelReaders tv) q)"
  by (induction ps es tv rule: removeStale.induct) (auto simp: delete_conv')

lemma removeStale_trace:
  "trace (removeStale ps es tv) =
     trace tv @ concat (map (\<lambda>(p, cr). if p \<in> set ps then []
                                        else [CancelFunc (cancelFunc cr), ReaderClose (reader cr)]) es)"
  by (induction ps es tv rule: removeStale.induct) auto

lemma removeStale_noop:
  "\<forall>p\<in>fst ` set es. p \<in> set ps \<Longrightarrow> removeStale ps es tv = tv"
  by (induction ps es tv rule: removeStale.induct) auto


lemma removeStale_keys:
  "fst ` set (cancelReaders (removeStale ps (cancelReaders tv) (tv\<lparr>readersMu := b\<rparr>)))
     = fst ` set (cancelReaders tv) \<inter> set ps"
proof (rule set_eqI)
  fix q
  let ?X = "removeStale ps (cancelReaders tv) (tv\<lparr>readersMu := b\<rparr>)"
  have 1: "(q \<in> fst ` set (cancelReaders ?X)) = (map_of (cancelReaders ?X) q \<noteq> None)"
    by (rule registered_iff[symmetric])
  have 2: "(q \<in> fst ` set (cancelReaders tv)) = (map_of (cancelReaders tv) q \<noteq> None)"
    by (rule registered_iff[symmetric])
  have 3: "map_of (cancelReaders ?X) q =
             (if q \<in> fst ` set (cancelReaders tv) \<and> q \<notin> set ps then None
              else map_of (cancelReaders tv) q)"
    by (simp add: removeStale_registry)
  show "(q \<in> fst ` set (cancelReaders ?X)) = (q \<in> fst ` set (cancelReaders tv) \<inter> set ps)"
  proof (cases "q \<in> fst ` set (cancelReaders tv) \<and> q \<notin> set ps")
    case True
    have "map_of (cancelReaders ?X) q = None"
      using True by (subst 3) simp
    with True show ?thesis unfolding 1 by simp
  next
    case False
    have "map_of (cancelReaders ?X) q = map_of (cancelReaders tv) q"
      using False by (subst 3) auto
    then have "(q \<in> fst ` set (cancelReaders ?X)) = (q \<in> fst ` set (cancelReaders tv))"
      unfolding 1 2 by simp
    with False show ?thesis by blast
  qed
qed

lemma removal_opens_nothing:
  "opened_partitions
     (concat (map (\<lambda>(p, cr). if p \<in> set ps then []
                               else [CancelFunc (cancelFunc cr), ReaderClose (reader cr)]) es)) = []"
  by (induction es) (auto split: prod.splits)

lemma partitionUpdateCheck_run:
  assumes "\<not> readersMu tv" and "\<not> dataMu tv" and "SchemaValueType (options tv) = Some zero"
    and "TopicPartitions c = Inr partitions"
  shows "\<exists>err tv3.
      addNew c (remdups partitions)
        (removeStale (remdups partitions) (cancelReaders tv) (tv\<lparr>readersMu := True\<rparr>))
        = Returned (err, tv3)
    \<and> partitionUpdateCheck c tv = Returned (err, Unlock_readersMu tv3)"
proof -
  let ?tv2 = "removeStale (remdups partitions) (cancelReaders tv) (tv\<lparr>readersMu := True\<rparr>)"
  have "\<not> dataMu ?tv2" "SchemaValueType (options ?tv2) = Some zero"
    using assms by simp_all
  from addNew_returns[OF this, of c "remdups partitions"]
  obtain err tv3 where "addNew c (remdups partitions) ?tv2 = Returned (err, tv3)" by blast
  then show ?thesis
    using assms(1,4) by (simp add: partitionUpdateCheck_def Lock_readersMu_def Let_def)
qed


subsection \<open>Errors during a reconcile\<close>

text \<open>
  C4, as stated: a fetch-next error while the backlog of a new partition is drained
  makes \<open>partitionUpdateCheck\<close> return an error. With a reader whose first \<open>Next\<close>
  fails, the call returns nil: the error is written to the log, the drain goes on
  with the next record, and the partition is registered.
\<close>

theorem drain_error_does_not_abort:
  "map_outcome (\<lambda>(err, tv). (err, cancelReaders tv, logger tv, the_data tv))
     (partitionUpdateCheck flaky_fetch fresh)
   = Returned (None, [(''t-0'', \<lparr>reader = 1, cancelFunc = 2\<rparr>)],
               [ReadNextFailed ''t-0'' ''connection reset''], [(''x'', Some 5)])"
  by (simp add: example_defs method_defs partitionUpdateCheck_def)

text \<open>
  C4, amended: a fetch-next error while the backlog of a new partition is drained
  does not abort \<open>partitionUpdateCheck\<close>: the error is written to the log, the drain
  goes on with the next record, so that every record of the backlog is applied, in
  order, and the partition is registered. The call aborts when the reader of a
  partition that has none yet cannot be opened, and (the partitions being
  enumerated) only then: it returns the error of that partition and opens no
  further reader. In every case the readers the call has opened are registered
  under their partitions, the entries of the current partitions that were
  registered before are still registered, and no other entry is.
\<close>

theorem reconcile_aborts_on_open_failure_only:
  assumes "\<not> readersMu tv" and "\<not> dataMu tv" and "SchemaValueType (options tv) = Some zero"
    and "TopicPartitions c = Inr partitions"
  shows "\<exists>err tv'. partitionUpdateCheck c tv = Returned (err, tv')
     \<and> err = (case first_refused c (remdups partitions) (fst ` set (cancelReaders tv)) of
                 None \<Rightarrow> None
               | Some (p, e) \<Rightarrow> Some (''create new reader failed for '' @ p @ '': '' @ e))
     \<and> ((err = None) = (\<forall>p\<in>set partitions. map_of (cancelReaders tv) p \<noteq> None \<or> opens c p))
     \<and> (\<exists>evs. trace tv' = trace tv @ evs
           \<and> opened_partitions evs =
               newly_opened c (remdups partitions) (fst ` set (cancelReaders tv))
           \<and> (\<forall>p r. NewReader p r \<in> set evs \<longrightarrow>
                 (\<exists>ctx. map_of (cancelReaders tv') p = Some \<lparr>reader = r, cancelFunc = ctx\<rparr>)))
     \<and> fst ` set (cancelReaders tv') =
           (fst ` set (cancelReaders tv) \<inter> set partitions)
           \<union> set (newly_opened c (remdups partitions) (fst ` set (cancelReaders tv)))
     \<and> (\<forall>p\<in>set partitions. \<forall>e. map_of (cancelReaders tv) p = Some e \<longrightarrow>
            map_of (cancelReaders tv') p = Some e)
     \<and> the_data tv' =
           foldl (\<lambda>m msg. apply_record zero msg m) (the_data tv)
             (concat (map (\<lambda>p. backlog_msgs (backlog_of c p))
                (newly_opened c (remdups partitions) (fst ` set (cancelReaders tv)))))
     \<and> (\<forall>p\<in>set (newly_opened c (remdups partitions) (fst ` set (cancelReaders tv))).
            set (backlog_errors p (backlog_of c p)) \<subseteq> set (logger tv'))"
proof -
  let ?ps = "remdups partitions"
  let ?K = "fst ` set (cancelReaders tv)"
  let ?tv2 = "removeStale ?ps (cancelReaders tv) (tv\<lparr>readersMu := True\<rparr>)"
  let ?new = "newly_opened c ?ps ?K"
  from partitionUpdateCheck_run[OF assms]
  obtain err tv3 where run: "addNew c ?ps ?tv2 = Returned (err, tv3)"
    and res: "partitionUpdateCheck c tv = Returned (err, Unlock_readersMu tv3)" by blast
  have inv: "\<not> dataMu ?tv2" "SchemaValueType (options ?tv2) = Some zero"
    using assms by simp_all
  have k2: "fst ` set (cancelReaders ?tv2) = ?K \<inter> set ?ps"
    by (rule removeStale_keys)
  have new2: "newly_opened c ?ps (fst ` set (cancelReaders ?tv2)) = ?new"
    unfolding k2 by (rule newly_opened_restrict) auto
  have ref2: "first_refused c ?ps (fst ` set (cancelReaders ?tv2)) = first_refused c ?ps ?K"
    unfolding k2 by (rule first_refused_restrict) auto
  have reg2: "\<And>q. q \<in> set partitions \<Longrightarrow>
                map_of (cancelReaders ?tv2) q = map_of (cancelReaders tv) q"
    by (simp add: removeStale_registry)
  have e0: "err = (case first_refused c ?ps ?K of
                 None \<Rightarrow> None
               | Some (p, e) \<Rightarrow> Some (''create new reader failed for '' @ p @ '': '' @ e))"
    using addNew_error[OF inv run] unfolding ref2 .
  have a: "(err = None) = (\<forall>p\<in>set partitions. map_of (cancelReaders tv) p \<noteq> None \<or> opens c p)"
    using addNew_error_iff[OF inv run] reg2 by simp
  note r = addNew_registry[OF inv run]
  have b: "\<forall>p\<in>set partitions. \<forall>e. map_of (cancelReaders tv) p = Some e \<longrightarrow>
            map_of (cancelReaders (Unlock_readersMu tv3)) p = Some e"
    using r reg2 by (simp add: Unlock_readersMu_def)
  from r obtain evs where evs: "trace tv3 = trace ?tv2 @ evs"
    "\<forall>q r. NewReader q r \<in> set evs \<longrightarrow>
        (\<exists>ctx. map_of (cancelReaders tv3) q = Some \<lparr>reader = r, cancelFunc = ctx\<rparr>)"
    by blast
  from addNew_opens[OF inv run] obtain evs' where evs': "trace tv3 = trace ?tv2 @ evs'"
    "opened_partitions evs' = ?new"
    and keys: "fst ` set (cancelReaders tv3) = fst ` set (cancelReaders ?tv2) \<union> set ?new"
    unfolding new2 by blast
  from evs(1) evs'(1) have same: "evs' = evs" by simp
  let ?rem = "concat (map (\<lambda>(p, cr). if p \<in> set ?ps then []
                else [CancelFunc (cancelFunc cr), ReaderClose (reader cr)]) (cancelReaders tv))"
  have nr: "NewReader q r \<notin> set ?rem" for q r
    by (auto split: if_splits)
  have t: "trace (Unlock_readersMu tv3) = trace tv @ (?rem @ evs)"
    by (simp add: Unlock_readersMu_def evs(1) removeStale_trace)
  have o: "opened_partitions (?rem @ evs) = ?new"
    using evs'(2) unfolding same opened_partitions_append removal_opens_nothing by simp
  have e: "\<forall>p r. NewReader p r \<in> set (?rem @ evs) \<longrightarrow>
                 (\<exists>ctx. map_of (cancelReaders (Unlock_readersMu tv3)) p
                          = Some \<lparr>reader = r, cancelFunc = ctx\<rparr>)"
    using evs(2) nr by (simp add: Unlock_readersMu_def)
  from t o e have d: "\<exists>evs. trace (Unlock_readersMu tv3) = trace tv @ evs
           \<and> opened_partitions evs = ?new
           \<and> (\<forall>p r. NewReader p r \<in> set evs \<longrightarrow>
                 (\<exists>ctx. map_of (cancelReaders (Unlock_readersMu tv3)) p
                          = Some \<lparr>reader = r, cancelFunc = ctx\<rparr>))"
    by blast
  have f: "fst ` set (cancelReaders (Unlock_readersMu tv3)) = (?K \<inter> set partitions) \<union> set ?new"
    using keys unfolding k2 by (simp add: Unlock_readersMu_def)
  have g: "the_data (Unlock_readersMu tv3) =
           foldl (\<lambda>m msg. apply_record zero msg m) (the_data tv)
             (concat (map (\<lambda>p. backlog_msgs (backlog_of c p)) ?new))"
    using addNew_store[OF inv run] inv(2) unfolding new2
    by (simp add: the_data_def Unlock_readersMu_def)
  have h: "\<forall>p\<in>set ?new. set (backlog_errors p (backlog_of c p))
                            \<subseteq> set (logger (Unlock_readersMu tv3))"
    using addNew_logger[OF inv run] unfolding new2 by (simp add: Unlock_readersMu_def)
  show ?thesis
    apply (rule exI[of _ err])
    apply (rule exI[of _ "Unlock_readersMu tv3"])
    apply (intro conjI)
           apply (fact res)
          apply (fact e0)
         apply (fact a)
        apply (fact d)
       apply (fact f)
      apply (fact b)
     apply (fact g)
    apply (fact h)
    done
qed

theorem reconcile_aborts_on_open_failure_only_witness:
  "\<not> readersMu serving \<and> \<not> dataMu serving \<and> SchemaValueType (options serving) = Some 0
   \<and> TopicPartitions mixed = Inr [''t-0'', ''t-1'', ''t-2'', ''t-3'']
   \<and> (\<exists>err tv'. partitionUpdateCheck mixed serving = Returned (err, tv')
          \<and> err = Some ''create new reader failed for t-2: connection refused''
          \<and> opened_partitions (drop (length (trace serving)) (trace tv')) = [''t-1'']
          \<and> fst ` set (cancelReaders tv') = {''t-0'', ''t-1''}
          \<and> map_of (cancelReaders tv') ''t-0'' = Some \<lparr>reader = 1, cancelFunc = 2\<rparr>
          \<and> the_data tv' = [(''a'', Some 1), (''b'', Some 2), (''x'', Some 5)]
          \<and> ReadNextFailed ''t-1'' ''connection reset'' \<in> set (logger tv'))"
proof -
  have h: "\<not> readersMu serving" "\<not> dataMu serving" "SchemaValueType (options serving) = Some 0"
    "TopicPartitions mixed = Inr [''t-0'', ''t-1'', ''t-2'', ''t-3'']"
    by (simp_all add: example_defs)
  have K: "fst ` set (cancelReaders serving) = {''t-0''}"
    by (simp add: example_defs)
  have new: "newly_opened mixed (remdups [''t-0'', ''t-1'', ''t-2'', ''t-3'']) {''t-0''} = [''t-1'']"
    by (simp add: mixed_def)
  have ref: "first_refused mixed (remdups [''t-0'', ''t-1'', ''t-2'', ''t-3'']) {''t-0''}
               = Some (''t-2'', ''connection refused'')"
    by (simp add: mixed_def)
  note T = reconcile_aborts_on_open_failure_only[OF h, unfolded K new ref]
  have "\<exists>err tv'. partitionUpdateCheck mixed serving = Returned (err, tv')
          \<and> err = Some ''create new reader failed for t-2: connection refused''
          \<and> opened_partitions (drop (length (trace serving)) (trace tv')) = [''t-1'']
          \<and> fst ` set (cancelReaders tv') = {''t-0'', ''t-1''}
          \<and> map_of (cancelReaders tv') ''t-0'' = Some \<lparr>reader = 1, cancelFunc = 2\<rparr>
          \<and> the_data tv' = [(''a'', Some 1), (''b'', Some 2), (''x'', Some 5)]
          \<and> ReadNextFailed ''t-1'' ''connection reset'' \<in> set (logger tv')"
    using T
    apply (elim exE conjE)
    subgoal for err tv' evs
      apply (rule exI[of _ err], rule exI[of _ tv'])
      apply (simp add: example_defs the_data_def backlog_msgs_def backlog_of_def
               backlog_errors_def apply_record_def payload_value_def)
      apply auto
      done
    done
  with h show ?thesis by simp
qed

subsection \<open>Reconciling twice\<close>

text \<open>
  C8, as stated: for every registry a second reconcile with the same partitions
  changes nothing and opens no reader. After a first call that was aborted because
  the reader of \<open>t-0\<close> could not be opened, the second call, for the same
  partitions, opens that reader and registers it.
\<close>

theorem reconcile_after_abort_opens_reader:
  "obind (partitionUpdateCheck unreachable fresh) (\<lambda>(err1, tv1).
     obind (partitionUpdateCheck one_partition tv1) (\<lambda>(err2, tv2).
       Returned (err1, cancelReaders tv1, err2, cancelReaders tv2, trace tv2)))
   = Returned (Some ''create new reader failed for t-0: connection refused'', [], None,
               [(''t-0'', \<lparr>reader = 1, cancelFunc = 2\<rparr>)],
               [NewReader ''t-0'' 1, GoWatch 2 1])"
  by (simp add: example_defs method_defs partitionUpdateCheck_def)

text \<open>
  The same happens with a broker that answers the same both times, when the second
  call ranges over the partitions in another order: the first call stops at \<open>t-0\<close>
  before it reaches \<open>t-1\<close>, the second opens \<open>t-1\<close> before it stops at \<open>t-0\<close>.
\<close>

lemma reconcile_after_abort_other_order:
  "obind (partitionUpdateCheck (half_reachable [''t-0'', ''t-1'']) fresh) (\<lambda>(err1, tv1).
     obind (partitionUpdateCheck (half_reachable [''t-1'', ''t-0'']) tv1) (\<lambda>(err2, tv2).
       Returned (err1 \<noteq> None, cancelReaders tv1, err2 \<noteq> None, cancelReaders tv2, trace tv2)))
   = Returned (True, [], True, [(''t-1'', \<lparr>reader = 1, cancelFunc = 2\<rparr>)],
               [NewReader ''t-1'' 1, GoWatch 2 1])"
  by (simp add: example_defs method_defs partitionUpdateCheck_def)

text \<open>
  C8, amended: when a reconcile has returned nil, a second reconcile with the same
  set of partitions returns nil and leaves the whole state as it is: the registry,
  the trace (no reader is opened, closed or cancelled), and the map.
\<close>

theorem reconcile_twice:
  assumes "\<not> dataMu tv" and "SchemaValueType (options tv) = Some zero"
    and "TopicPartitions c = Inr partitions"
    and "partitionUpdateCheck c tv = Returned (None, tv1)"
    and "TopicPartitions c' = Inr partitions'" and "set partitions' = set partitions"
  shows "partitionUpdateCheck c' tv1 = Returned (None, tv1)"
proof -
  let ?ps = "remdups partitions"
  let ?tv2 = "removeStale ?ps (cancelReaders tv) (tv\<lparr>readersMu := True\<rparr>)"
  from assms(3,4) have free: "\<not> readersMu tv"
    by (auto simp: partitionUpdateCheck_def Lock_readersMu_def split: if_splits)
  from partitionUpdateCheck_run[OF free assms(1-3)] assms(4)
  obtain tv3 where run: "addNew c ?ps ?tv2 = Returned (None, tv3)"
    and tv1: "tv1 = Unlock_readersMu tv3" by auto
  have inv: "\<not> dataMu ?tv2" "SchemaValueType (options ?tv2) = Some zero"
    using assms by simp_all
  note r = addNew_registry[OF inv run]
  have all: "\<forall>p\<in>set partitions. map_of (cancelReaders tv3) p \<noteq> None"
    using r by simp
  have only: "map_of (cancelReaders tv3) q \<noteq> None \<Longrightarrow> q \<in> set partitions" for q
  proof -
    assume "map_of (cancelReaders tv3) q \<noteq> None"
    with r have "map_of (cancelReaders ?tv2) q \<noteq> None \<or> q \<in> set ?ps" by blast
    moreover have "map_of (cancelReaders tv) q \<noteq> None \<Longrightarrow> q \<in> fst ` set (cancelReaders tv)"
      by (simp add: map_of_eq_None_iff)
    ultimately show "q \<in> set partitions"
      by (auto simp: removeStale_registry split: if_splits)
  qed
  let ?locked = "tv1\<lparr>readersMu := True\<rparr>"
  have cr: "cancelReaders tv1 = cancelReaders tv3"
    by (simp add: tv1 Unlock_readersMu_def)
  have "\<forall>p\<in>fst ` set (cancelReaders tv3). p \<in> set (remdups partitions')"
  proof
    fix p assume "p \<in> fst ` set (cancelReaders tv3)"
    then have "map_of (cancelReaders tv3) p \<noteq> None" by (simp add: map_of_eq_None_iff)
    from only[OF this] assms(6) show "p \<in> set (remdups partitions')" by simp
  qed
  then have rem: "removeStale (remdups partitions') (cancelReaders tv1) ?locked = ?locked"
    unfolding cr by (rule removeStale_noop)
  have "\<forall>p\<in>set (remdups partitions'). map_of (cancelReaders ?locked) p \<noteq> None"
    using all assms(6) by (simp add: cr)
  then have add: "addNew c' (remdups partitions') ?locked = Returned (None, ?locked)"
    by (rule addNew_noop)
  have un: "Unlock_readersMu ?locked = tv1"
    by (simp add: tv1 Unlock_readersMu_def)
  have "\<not> readersMu tv1" by (simp add: tv1 Unlock_readersMu_def)
  then show ?thesis
    using assms(5) by (simp add: partitionUpdateCheck_def Lock_readersMu_def Let_def rem add un)
qed

theorem reconcile_twice_witness:
  "\<not> dataMu fresh \<and> SchemaValueType (options fresh) = Some 0
   \<and> TopicPartitions one_partition = Inr [''t-0'']
   \<and> partitionUpdateCheck one_partition fresh = Returned (None, first_reader)
   \<and> set [''t-0''] = set [''t-0'']
   \<and> partitionUpdateCheck one_partition first_reader = Returned (None, first_reader)"
proof -
  have h: "\<not> dataMu fresh" "SchemaValueType (options fresh) = Some 0"
    "TopicPartitions one_partition = Inr [''t-0'']"
    "partitionUpdateCheck one_partition fresh = Returned (None, first_reader)"
    by (simp_all add: example_defs method_defs partitionUpdateCheck_def)
  from reconcile_twice[OF h h(3)] h show ?thesis by simp
qed

subsection \<open>A partition that disappears\<close>



subsection \<open>The last record for a key\<close>

text \<open>
  C7. After a non-empty sequence of records for key \<open>k\<close>, none of them a tombstone,
  has been applied in order, \<open>Get k\<close> returns the value of the last record: the value
  decoded from it, or the zero value where its payload does not decode (C10).
\<close>

theorem last_record_wins:
  assumes "msgs \<noteq> []" and "\<forall>m\<in>set msgs. Key m = k \<and> Payload m \<noteq> []"
    and "\<not> dataMu tv" and "SchemaValueType (options tv) = Some zero"
  shows "\<exists>tv'. handleMessages msgs tv = Returned tv'
           \<and> Get k tv' = Returned
                (Some (case GetSchemaValue (last msgs) of Inl err \<Rightarrow> zero | Inr v \<Rightarrow> v), tv')"
proof -
  obtain tv' where r: "handleMessages msgs tv = Returned tv'" and f: "\<not> dataMu tv'"
    and d: "the_data tv' = foldl (\<lambda>m msg. apply_record zero msg m) (the_data tv) msgs"
    using handleMessages_returns[OF assms(3,4), of msgs] by blast
  from assms(1) obtain ms m where ms: "msgs = ms @ [m]"
    by (cases msgs rule: rev_cases) auto
  with assms(2) have km: "Key m = k" "Payload m \<noteq> []" by auto
  have "map_of (the_data tv') k =
          Some (Some (case GetSchemaValue m of Inl err \<Rightarrow> zero | Inr v \<Rightarrow> v))"
    using km by (simp add: d ms apply_record_def payload_value_def update_conv')
  then show ?thesis using r f ms by (simp add: Get_free index_map_def)
qed

theorem last_record_wins_witness:
  "[put ''k'' 1, put ''k'' 2] \<noteq> []
   \<and> Key (put ''k'' 1) = ''k'' \<and> Payload (put ''k'' 1) \<noteq> []
   \<and> Key (put ''k'' 2) = ''k'' \<and> Payload (put ''k'' 2) \<noteq> []
   \<and> \<not> dataMu fresh \<and> SchemaValueType (options fresh) = Some 0
   \<and> (\<exists>tv'. handleMessages [put ''k'' 1, put ''k'' 2] fresh = Returned tv'
           \<and> Get ''k'' tv' = Returned (Some 2, tv'))"
  using last_record_wins[of "[put ''k'' 1, put ''k'' 2]" "''k''" fresh 0]
  by (simp add: put_def fresh_def TableViewImpl_literal_def example_options_def)

subsection \<open>A payload that does not decode\<close>

text \<open>
  C10. A record with a non-empty payload that fails to decode is applied without an
  error reaching the caller: \<open>handleMessage\<close> returns, the failure is written to the
  log, and the key is mapped to the zero value of the configured value type,
  whatever it was mapped to before.
\<close>

theorem decode_failure_stores_zero:
  assumes "Payload msg \<noteq> []" and "GetSchemaValue msg = Inl err"
    and "\<not> dataMu tv" and "SchemaValueType (options tv) = Some zero"
  shows "\<exists>tv'. handleMessage msg tv = Returned tv'
           \<and> GetSchemaValueFailed err (Key msg) \<in> set (logger tv')
           \<and> map_of (the_data tv') (Key msg) = Some (Some zero)
           \<and> Get (Key msg) tv' = Returned (Some zero, tv')"
proof -
  obtain tv' where r: "handleMessage msg tv = Returned tv'" and f: "\<not> dataMu tv'"
    and d: "the_data tv' = apply_record zero msg (the_data tv)"
    using handleMessage_returns[OF assms(3,4), of msg] by blast
  have m: "map_of (the_data tv') (Key msg) = Some (Some zero)"
    using assms(1,2) by (simp add: d apply_record_def payload_value_def update_conv')
  obtain es where "logger (notify (listeners tv) (Key msg) (Some zero)
       (set_data (apply_record zero msg (the_data tv))
          (tv\<lparr>dataMu := True, logger := logger tv @ [GetSchemaValueFailed err (Key msg)]\<rparr>)))
     = (logger tv @ [GetSchemaValueFailed err (Key msg)]) @ es"
    using notify_logger_prefix[of "listeners tv" "Key msg" "Some zero"
       "set_data (apply_record zero msg (the_data tv))
          (tv\<lparr>dataMu := True, logger := logger tv @ [GetSchemaValueFailed err (Key msg)]\<rparr>)"]
    by (auto simp: set_data_def)
  then have l: "GetSchemaValueFailed err (Key msg) \<in> set (logger tv')"
    using r assms(1,2) handleMessage_eq[OF assms(3,4), of msg]
    by (auto simp: payload_value_def Unlock_dataMu_def)
  show ?thesis using r m l f by (simp add: Get_free index_map_def)
qed

theorem decode_failure_stores_zero_witness:
  "Payload (undecodable ''a'') \<noteq> [] \<and> GetSchemaValue (undecodable ''a'') = Inl ''bad payload''
   \<and> \<not> dataMu two_entries \<and> SchemaValueType (options two_entries) = Some 0
   \<and> (\<exists>tv'. handleMessage (undecodable ''a'') two_entries = Returned tv'
          \<and> GetSchemaValueFailed ''bad payload'' ''a'' \<in> set (logger tv')
          \<and> map_of (the_data tv') ''a'' = Some (Some 0)
          \<and> Get ''a'' tv' = Returned (Some 0, tv'))"
  using decode_failure_stores_zero[of "undecodable ''a''" "''bad payload''" two_entries 0]
  by (simp add: example_defs)

end
